theory Spec2Isabelle
  imports Main
begin

section \<open>Text\<close>

text \<open>
  A Python \<open>str\<close> is a sequence of code points. The characters modelled are the code
  points U+0000 to U+00FF (the documents written by the program declare the charset
  ISO-8859-1) together with the en dash U+2013, the only other character the program
  names. On this alphabet the classifications Python uses (white space, decimal digits,
  the word characters of \<open>re\<close>, case conversion) are finite tables and are written out
  in full.
\<close>

datatype pychar = L1 char | EnDash

type_synonym pystr = "pychar list"

definition py :: "string \<Rightarrow> pystr" where
  "py = map L1"

fun code_point :: "pychar \<Rightarrow> nat" where
  "code_point (L1 c) = of_char c"
| "code_point EnDash = 8211"

text \<open>\<open>str.isspace\<close>, which \<open>strip\<close>, \<open>split\<close> and the pattern \<open>\s\<close> use.\<close>

definition is_space :: "pychar \<Rightarrow> bool" where
  "is_space c = (let n = code_point c in
     (9 \<le> n \<and> n \<le> 13) \<or> (28 \<le> n \<and> n \<le> 32) \<or> n = 133 \<or> n = 160)"

text \<open>The pattern \<open>\d\<close>: the decimal digits.\<close>

definition is_decimal :: "pychar \<Rightarrow> bool" where
  "is_decimal c = (let n = code_point c in 48 \<le> n \<and> n \<le> 57)"

text \<open>The pattern \<open>\w\<close>: alphanumeric characters and the underscore.\<close>

definition is_word :: "pychar \<Rightarrow> bool" where
  "is_word c = (let n = code_point c in
     (48 \<le> n \<and> n \<le> 57) \<or> (65 \<le> n \<and> n \<le> 90) \<or> n = 95 \<or> (97 \<le> n \<and> n \<le> 122)
     \<or> n = 170 \<or> n = 178 \<or> n = 179 \<or> n = 181 \<or> n = 185 \<or> n = 186
     \<or> (188 \<le> n \<and> n \<le> 190) \<or> (192 \<le> n \<and> n \<le> 214) \<or> (216 \<le> n \<and> n \<le> 246)
     \<or> (248 \<le> n \<and> n \<le> 255))"

text \<open>\<open>str.lower\<close>, character by character.\<close>

fun lower_char :: "pychar \<Rightarrow> pychar" where
  "lower_char (L1 c) = (let n = (of_char c :: nat) in
     if (65 \<le> n \<and> n \<le> 90) \<or> (192 \<le> n \<and> n \<le> 214) \<or> (216 \<le> n \<and> n \<le> 222)
     then L1 (char_of (n + 32)) else L1 c)"
| "lower_char EnDash = EnDash"

definition lower :: "pystr \<Rightarrow> pystr" where
  "lower s = map lower_char s"

definition lstrip :: "pystr \<Rightarrow> pystr" where
  "lstrip s = dropWhile is_space s"

definition rstrip :: "pystr \<Rightarrow> pystr" where
  "rstrip s = rev (dropWhile is_space (rev s))"

definition strip :: "pystr \<Rightarrow> pystr" where
  "strip s = rstrip (lstrip s)"

definition startswith :: "pystr \<Rightarrow> pystr \<Rightarrow> bool" where
  "startswith s p = (take (length p) s = p)"

text \<open>\<open>pat in s\<close> for strings.\<close>

fun contains :: "pystr \<Rightarrow> pystr \<Rightarrow> bool" where
  "contains pat [] = (pat = [])"
| "contains pat (c # cs) = (take (length pat) (c # cs) = pat \<or> contains pat cs)"

text \<open>
  \<open>s.replace(old, new)\<close>: the occurrences of \<open>old\<close> are replaced from left to right,
  without overlap. An empty \<open>old\<close> matches before every character and at the end.
\<close>

function replace_from :: "pystr \<Rightarrow> pystr \<Rightarrow> pystr \<Rightarrow> pystr" where
  "replace_from old new [] = []"
| "replace_from old new (c # cs) =
     (if old \<noteq> [] \<and> take (length old) (c # cs) = old
      then new @ replace_from old new (drop (length old) (c # cs))
      else c # replace_from old new cs)"
  by pat_completeness auto
termination
  by (relation "measure (\<lambda>(old, new, s). length s)") auto

definition replace :: "pystr \<Rightarrow> pystr \<Rightarrow> pystr \<Rightarrow> pystr" where
  "replace old new s =
     (if old = [] then new @ concat (map (\<lambda>c. c # new) s) else replace_from old new s)"

text \<open>\<open>sep.join(xs)\<close>.\<close>

fun join :: "pystr \<Rightarrow> pystr list \<Rightarrow> pystr" where
  "join sep [] = []"
| "join sep [x] = x"
| "join sep (x # y # ys) = x @ sep @ join sep (y # ys)"

section \<open>Seat rotation (generate_lesson.py)\<close>

datatype py_error = KeyError | IndexError | TypeError

text \<open>\<open>ROTATE_MAP\<close>, a dictionary from seat names to seat names.\<close>

definition ROTATE_MAP :: "pystr \<rightharpoonup> pystr" where
  "ROTATE_MAP = [py ''N'' \<mapsto> py ''S'', py ''S'' \<mapsto> py ''N'',
                 py ''E'' \<mapsto> py ''W'', py ''W'' \<mapsto> py ''E'']"

text \<open>\<open>ROTATE_MAP[seat]\<close> raises \<open>KeyError\<close> for any other key.\<close>

definition rotate_seat :: "pystr \<Rightarrow> py_error + pystr" where
  "rotate_seat seat = (case ROTATE_MAP seat of None \<Rightarrow> Inl KeyError | Some s \<Rightarrow> Inr s)"

text \<open>\<open>deal_value[0]\<close> raises \<open>IndexError\<close> on the empty string.\<close>

definition rotate_deal_tag :: "pystr \<Rightarrow> py_error + pystr" where
  "rotate_deal_tag deal_value =
     (case deal_value of
        [] \<Rightarrow> Inl IndexError
      | p # rest \<Rightarrow>
          (case rotate_seat [p] of Inl e \<Rightarrow> Inl e | Inr s \<Rightarrow> Inr (s @ rest)))"

text \<open>Running an operation on the result of another, an error of the first passing through.\<close>

definition and_then :: "py_error + 'a \<Rightarrow> ('a \<Rightarrow> py_error + 'b) \<Rightarrow> py_error + 'b" where
  "and_then r f = (case r of Inl e \<Rightarrow> Inl e | Inr x \<Rightarrow> f x)"

section \<open>Auction expansion (generate_pbn.py, stage 2)\<close>

text \<open>
  The splitting loop of \<open>expand_auction\<close>. The index \<open>i\<close> of the source is kept as the
  text that remains from position \<open>i\<close>; \<open>paren_depth\<close> is a Python integer and goes
  below zero on a closing parenthesis that nothing opened.
\<close>

function split_loop :: "pystr list \<Rightarrow> pystr \<Rightarrow> int \<Rightarrow> pystr \<Rightarrow> pystr list" where
  "split_loop elements current paren_depth [] =
     (if current \<noteq> [] then elements @ [current] else elements)"
| "split_loop elements current paren_depth (ch # rest) =
     (if ch = L1 CHR ''('' then
        split_loop elements (current @ [ch]) (paren_depth + 1) rest
      else if ch = L1 CHR '')'' then
        split_loop elements (current @ [ch]) (paren_depth - 1) rest
      else if paren_depth = 0 \<and> take 3 (ch # rest) = py '' - '' then
        split_loop (elements @ [current]) [] paren_depth (drop 3 (ch # rest))
      else
        split_loop elements (current @ [ch]) paren_depth rest)"
  by pat_completeness auto
termination
  by (relation "measure (\<lambda>(elements, current, paren_depth, s). length s)") auto

text \<open>The normalisation of the dash and the split into elements.\<close>

definition normalize_dashes :: "pystr \<Rightarrow> pystr" where
  "normalize_dashes raw_auction =
     replace [L1 CHR '' '', EnDash, L1 CHR '' ''] (py '' - '') raw_auction"

definition split_elements :: "pystr \<Rightarrow> pystr list" where
  "split_elements normalized = split_loop [] [] 0 normalized"

text \<open>
  The loop over \<open>enumerate(elements)\<close>: \<open>i\<close> is the index of the element, also of
  those that are skipped as blank.
\<close>

definition is_bracketed :: "pystr \<Rightarrow> bool" where
  "is_bracketed elem = (startswith elem (py ''['') \<and> L1 CHR '']'' \<in> set elem)"

definition unbracket :: "pystr \<Rightarrow> pystr" where
  "unbracket elem = replace (py '']'') [] (replace (py ''['') [] elem)"

fun emit_loop :: "nat \<Rightarrow> pystr list \<Rightarrow> pystr list \<Rightarrow> bool \<Rightarrow> pystr list" where
  "emit_loop i [] output prev_was_bracketed = output"
| "emit_loop i (e # es) output prev_was_bracketed =
     (let elem = strip e in
      if elem = [] then emit_loop (i + 1) es output prev_was_bracketed
      else if lower elem = py ''all pass'' then
        emit_loop (i + 1) es (output @ [py ''Pass'', py ''Pass'', py ''Pass'']) False
      else if is_bracketed elem then
        emit_loop (i + 1) es (output @ [unbracket elem]) True
      else
        emit_loop (i + 1) es
          ((if i > 0 \<and> \<not> prev_was_bracketed then output @ [py ''Pass''] else output) @ [elem])
          False)"

text \<open>The normalisation of \<open>P\<close> to \<open>Pass\<close>, element by element.\<close>

definition normalize_p :: "pystr \<Rightarrow> pystr" where
  "normalize_p elem =
     (if elem = py ''P'' then py ''Pass''
      else if startswith elem (py ''P '') \<or> startswith elem (py ''P('') then py ''Pass'' @ drop 1 elem
      else elem)"

text \<open>\<open>bid.split('(')[0]\<close> is the text before the first opening parenthesis.\<close>

definition is_pass :: "pystr \<Rightarrow> bool" where
  "is_pass bid = (strip (takeWhile (\<lambda>c. c \<noteq> L1 CHR ''('') bid) = py ''Pass'')"

text \<open>\<open>output[-3:]\<close>: the last three elements, or all of them when there are fewer.\<close>

definition last3 :: "'a list \<Rightarrow> 'a list" where
  "last3 xs = drop (length xs - 3) xs"

definition needs_pass :: "pystr list \<Rightarrow> bool" where
  "needs_pass out = (length out < 3 \<or> \<not> list_all is_pass (last3 out))"

lemma is_pass_Pass: "is_pass (py ''Pass'')"
  by (simp add: is_pass_def py_def strip_def lstrip_def rstrip_def is_space_def)

text \<open>How many of the last three elements, read from the end, are passes in a row.\<close>

definition trailing_passes :: "pystr list \<Rightarrow> nat" where
  "trailing_passes out = length (takeWhile is_pass (take 3 (rev out)))"

lemma takeWhile_shorter:
  "\<not> list_all P xs \<Longrightarrow> length (takeWhile P xs) < length xs"
  by (induction xs) auto

lemma rev_last3: "rev (last3 xs) = take 3 (rev xs)"
proof (cases "length xs < 3")
  case True
  then show ?thesis by (simp add: last3_def)
next
  case False
  then have "length xs - (length xs - 3) = 3" by simp
  then show ?thesis by (simp add: last3_def rev_drop)
qed

lemma needs_pass_trailing:
  assumes "needs_pass out"
  shows "trailing_passes out < 3"
proof (cases "length out < 3")
  case True
  have "length (takeWhile is_pass (take 3 (rev out))) \<le> length (take 3 (rev out))"
    by (rule length_takeWhile_le)
  with True show ?thesis by (simp add: trailing_passes_def)
next
  case False
  with assms have "\<not> list_all is_pass (last3 out)" by (simp add: needs_pass_def)
  then have "\<not> list_all is_pass (rev (last3 out))" by (simp add: list_all_iff)
  then have "\<not> list_all is_pass (take 3 (rev out))" by (simp add: rev_last3)
  then have "length (takeWhile is_pass (take 3 (rev out))) < length (take 3 (rev out))"
    by (rule takeWhile_shorter)
  then show ?thesis by (simp add: trailing_passes_def)
qed

lemma takeWhile_take_grow:
  "length (takeWhile P (take 3 r)) < 3 \<Longrightarrow>
   length (takeWhile P (take 3 r)) < Suc (length (takeWhile P (take 2 r)))"
proof (cases r)
  case Nil
  then show ?thesis by simp
next
  case (Cons a r1)
  note r = Cons
  assume less: "length (takeWhile P (take 3 r)) < 3"
  show ?thesis
  proof (cases r1)
    case Nil
    with r show ?thesis by (simp add: numeral_3_eq_3 numeral_2_eq_2)
  next
    case (Cons b r2)
    note r1 = Cons
    show ?thesis
    proof (cases r2)
      case Nil
      with r r1 show ?thesis by (simp add: numeral_3_eq_3 numeral_2_eq_2)
    next
      case (Cons c r3)
      with r r1 less show ?thesis
        by (simp add: numeral_3_eq_3 numeral_2_eq_2 split: if_splits)
    qed
  qed
qed

lemma trailing_passes_snoc:
  assumes "trailing_passes out < 3"
  shows "trailing_passes out < trailing_passes (out @ [py ''Pass''])"
proof -
  have "trailing_passes (out @ [py ''Pass''])
        = Suc (length (takeWhile is_pass (take 2 (rev out))))"
    by (simp add: trailing_passes_def is_pass_Pass numeral_3_eq_3 numeral_2_eq_2)
  with assms takeWhile_take_grow [of is_pass "rev out"] show ?thesis
    by (simp add: trailing_passes_def)
qed

text \<open>
  The closing loop \<open>while len(output) < 3 or not all(...): output.append('Pass')\<close>.
  Each round adds a pass at the end, so the passes at the end grow until there are three.
\<close>

function pad_passes :: "pystr list \<Rightarrow> pystr list" where
  "pad_passes out =
     (if needs_pass out then pad_passes (out @ [py ''Pass'']) else out)"
  by pat_completeness auto
termination
proof (relation "measure (\<lambda>out. 3 - trailing_passes out)")
  show "wf (measure (\<lambda>out. 3 - trailing_passes out))" by simp
next
  fix out
  assume "needs_pass out"
  then have lt: "trailing_passes out < 3" by (rule needs_pass_trailing)
  then have "trailing_passes out < trailing_passes (out @ [py ''Pass''])"
    by (rule trailing_passes_snoc)
  with lt show "(out @ [py ''Pass''], out) \<in> measure (\<lambda>out. 3 - trailing_passes out)"
    by simp
qed

declare pad_passes.simps [simp del]

text \<open>The list \<open>output\<close> at the end of \<open>expand_auction\<close>, and the string returned.\<close>

definition expand_tokens :: "pystr \<Rightarrow> pystr list" where
  "expand_tokens raw_auction =
     pad_passes (map normalize_p
       (emit_loop 0 (split_elements (normalize_dashes raw_auction)) [] False))"

definition expand_auction :: "pystr \<Rightarrow> pystr" where
  "expand_auction raw_auction = join (py '' '') (expand_tokens raw_auction)"

section \<open>Where each token of an expansion comes from\<close>








section \<open>Parenthesis depth\<close>

text \<open>
  The depth reached after a text that starts at depth \<open>d\<close>, or \<open>None\<close> when a closing
  parenthesis has no opening one. A text is balanced when it goes from depth zero back to
  depth zero.
\<close>

fun depth_after :: "nat \<Rightarrow> pystr \<Rightarrow> nat option" where
  "depth_after d [] = Some d"
| "depth_after d (c # cs) =
     (if c = L1 CHR ''('' then depth_after (Suc d) cs
      else if c = L1 CHR '')'' then (if d = 0 then None else depth_after (d - 1) cs)
      else depth_after d cs)"

definition balanced :: "pystr \<Rightarrow> bool" where
  "balanced s = (depth_after 0 s = Some 0)"

section \<open>Footnote extraction (generate_pbn.py, stage 3)\<close>

text \<open>\<open>str(n)\<close> for a natural number: its decimal digits.\<close>

definition digit_char :: "nat \<Rightarrow> pychar" where
  "digit_char n = L1 (char_of (48 + n))"

function str_nat :: "nat \<Rightarrow> pystr" where
  "str_nat n = (if n < 10 then [digit_char n] else str_nat (n div 10) @ [digit_char (n mod 10)])"
  by pat_completeness auto
termination
  by (relation "measure (\<lambda>n. n)") auto

declare str_nat.simps [simp del]

text \<open>
  The inner loop of \<open>extract_bid_notes\<close>, which looks for the closing parenthesis: it
  runs while text remains and \<open>depth > 0\<close>. \<open>seen\<close> is \<open>auction[i+1:j]\<close>, the text the
  loop has passed; the result is \<open>seen\<close> with the text from \<open>j\<close> on.
\<close>

fun scan_close :: "nat \<Rightarrow> pystr \<Rightarrow> pystr \<Rightarrow> pystr \<times> pystr" where
  "scan_close depth seen [] = (seen, [])"
| "scan_close depth seen (c # cs) =
     (if depth > 0 then
        scan_close
          (if c = L1 CHR ''('' then depth + 1 else if c = L1 CHR '')'' then depth - 1 else depth)
          (seen @ [c]) cs
      else (seen, c # cs))"

lemma scan_close_shorter: "length (snd (scan_close depth seen s)) \<le> length s"
  by (induction s arbitrary: depth seen) (auto intro: le_SucI)

lemma scan_close_rest:
  assumes "(seen', rest) = scan_close depth seen s"
  shows "length rest < Suc (length s)"
proof -
  from assms have "rest = snd (scan_close depth seen s)" by (metis snd_conv)
  then show ?thesis using scan_close_shorter [of depth seen s] by simp
qed

text \<open>
  The outer loop. \<open>note_text = auction[i+1:j-1]\<close> is \<open>seen\<close> without its last character:
  the closing parenthesis when there is one, and the last character of the text when
  the group is not closed.
\<close>

definition flag :: "nat \<Rightarrow> pystr" where
  "flag note_num = py '' ='' @ str_nat note_num @ py ''=''"

definition note_entry :: "nat \<Rightarrow> pystr \<Rightarrow> pystr" where
  "note_entry note_num note_text = str_nat note_num @ py '':'' @ note_text"

function extract_loop :: "pystr \<Rightarrow> pystr list \<Rightarrow> nat \<Rightarrow> pystr \<Rightarrow> pystr \<times> pystr list" where
  "extract_loop result notes note_num [] = (result, notes)"
| "extract_loop result notes note_num (c # cs) =
     (if c = L1 CHR ''('' then
        (let (seen, rest) = scan_close 1 [] cs;
             note_text = butlast seen;
             n = note_num + 1
         in extract_loop (rstrip result @ flag n) (notes @ [note_entry n note_text]) n rest)
      else extract_loop (result @ [c]) notes note_num cs)"
  by pat_completeness auto
termination
  by (relation "measure (\<lambda>(result, notes, note_num, s). length s)")
    (auto dest: scan_close_rest)

text \<open>\<open>while '  ' in result: result = result.replace('  ', ' ')\<close>.\<close>

lemma replace_from_shorter:
  "length new \<le> length old \<Longrightarrow> length (replace_from old new s) \<le> length s"
proof (induction old new s rule: replace_from.induct)
  case (1 old new)
  then show ?case by simp
next
  case (2 old new c cs)
  show ?case
  proof (cases "old \<noteq> [] \<and> take (length old) (c # cs) = old")
    case True
    then have "length (take (length old) (c # cs)) = length old" by simp
    then have len: "length old \<le> length (c # cs)" by simp
    have "length (replace_from old new (drop (length old) (c # cs))) \<le> length (c # cs) - length old"
      using True "2.IH"(1) "2.prems" by simp
    with True len "2.prems" show ?thesis by simp
  next
    case False
    then have "length (replace_from old new cs) \<le> length cs"
      using "2.IH"(2) "2.prems" by blast
    with False show ?thesis by auto
  qed
qed

lemma replace_from_contains_shorter:
  "contains old s \<Longrightarrow> old \<noteq> [] \<Longrightarrow> length new < length old \<Longrightarrow>
   length (replace_from old new s) < length s"
proof (induction old new s rule: replace_from.induct)
  case (1 old new)
  then show ?case by simp
next
  case (2 old new c cs)
  show ?case
  proof (cases "take (length old) (c # cs) = old")
    case True
    then have "length (take (length old) (c # cs)) = length old" by simp
    then have len: "length old \<le> length (c # cs)" by simp
    have "length (replace_from old new (drop (length old) (c # cs)))
          \<le> length (drop (length old) (c # cs))"
      using "2.prems"(3) by (intro replace_from_shorter) simp
    then have "length (replace_from old new (drop (length old) (c # cs)))
          \<le> length (c # cs) - length old"
      by simp
    with True len "2.prems" show ?thesis by simp
  next
    case False
    with "2.prems" have "contains old cs" by simp
    with False "2.IH"(2) "2.prems" have "length (replace_from old new cs) < length cs" by blast
    with False show ?thesis by simp
  qed
qed

function collapse_spaces :: "pystr \<Rightarrow> pystr" where
  "collapse_spaces result =
     (if contains (py ''  '') result then collapse_spaces (replace (py ''  '') (py '' '') result)
      else result)"
  by pat_completeness auto
termination
proof (relation "measure length")
  show "wf (measure length)" by simp
next
  fix result :: pystr
  assume "contains (py ''  '') result"
  then have "length (replace_from (py ''  '') (py '' '') result) < length result"
    by (rule replace_from_contains_shorter) (simp_all add: py_def)
  then show "(replace (py ''  '') (py '' '') result, result) \<in> measure length"
    by (simp add: replace_def py_def)
qed

declare collapse_spaces.simps [simp del]

text \<open>The function returns the cleaned auction and the notes joined with a bar.\<close>

definition extract_notes_list :: "pystr \<Rightarrow> pystr \<times> pystr list" where
  "extract_notes_list auction =
     (let (result, notes) = extract_loop [] [] 0 auction
      in (strip (collapse_spaces result), notes))"

definition extract_bid_notes :: "pystr \<Rightarrow> pystr \<times> pystr" where
  "extract_bid_notes auction =
     (let (cleaned, notes) = extract_notes_list auction in (cleaned, join (py ''|'') notes))"

section \<open>Suit symbols (generate_pbn.py, stage 3)\<close>

text \<open>
  \<open>re.sub(pattern, repl, text)\<close> for a pattern that never matches the empty string: the
  text is read from left to right; where the pattern matches, the replacement is written
  and reading goes on after the match, elsewhere the character is copied. A pattern is
  given as a function of the character before the position (\<open>None\<close> at the start of the
  text, for \<open>\b\<close>) and of the text from the position on; it returns the replacement
  together with the number of characters matched, less one.
\<close>

type_synonym matcher = "pychar option \<Rightarrow> pystr \<Rightarrow> (pystr \<times> nat) option"

function re_sub :: "matcher \<Rightarrow> pychar option \<Rightarrow> pystr \<Rightarrow> pystr" where
  "re_sub m prev [] = []"
| "re_sub m prev (c # cs) =
     (case m prev (c # cs) of
        Some (repl, k) \<Rightarrow> repl @ re_sub m (Some (last (c # take k cs))) (drop k cs)
      | None \<Rightarrow> c # re_sub m (Some c) cs)"
  by pat_completeness auto
termination
  by (relation "measure (\<lambda>(m, prev, s). length s)") auto

definition BSL :: pychar where
  "BSL = L1 (CHR 0x5C)"

definition is_suit :: "pychar \<Rightarrow> bool" where
  "is_suit c = (c = L1 CHR ''C'' \<or> c = L1 CHR ''D'' \<or> c = L1 CHR ''H'' \<or> c = L1 CHR ''S'')"

definition is_rank :: "pychar \<Rightarrow> bool" where
  "is_rank c = (c = L1 CHR ''K'' \<or> c = L1 CHR ''Q'' \<or> c = L1 CHR ''A'' \<or> c = L1 CHR ''J''
                \<or> c = L1 CHR ''T'')"

text \<open>The class \<open>[\d+-]\<close>.\<close>

definition is_count_char :: "pychar \<Rightarrow> bool" where
  "is_count_char c = (is_decimal c \<or> c = L1 CHR ''+'' \<or> c = L1 CHR ''-'')"

text \<open>
  \<open>\b\<close> after a suit letter, which is a word character: the text ends there or goes on
  with a character that is not a word character. \<open>\b\<close> before a suit letter: the text
  starts there or the character before is not a word character.
\<close>

definition word_ends :: "pystr \<Rightarrow> bool" where
  "word_ends rest = (case rest of [] \<Rightarrow> True | c # _ \<Rightarrow> \<not> is_word c)"

definition word_starts :: "pychar option \<Rightarrow> bool" where
  "word_starts prev = (case prev of None \<Rightarrow> True | Some c \<Rightarrow> \<not> is_word c)"

text \<open>
  \<open>(\d[\d+-]*) ([CDHS])\b\<close>, replaced by \<open>\1\\\2s\<close>. The run \<open>[\d+-]*\<close> is greedy, and
  giving characters back never helps: the character after a shorter run is one of the
  class, not the space the pattern asks for.
\<close>

definition count_suit :: matcher where
  "count_suit prev s =
     (case s of
        [] \<Rightarrow> None
      | d # t \<Rightarrow>
          if \<not> is_decimal d then None
          else (case dropWhile is_count_char t of
                  sp # su # rest \<Rightarrow>
                    if sp = L1 CHR '' '' \<and> is_suit su \<and> word_ends rest
                    then Some (d # takeWhile is_count_char t @ [BSL, su, L1 CHR ''s''],
                               length (takeWhile is_count_char t) + 2)
                    else None
                | _ \<Rightarrow> None))"

text \<open>\<open>([KQAJT])([CDHS])\b\<close>, replaced by \<open>\1\\\2\<close>.\<close>

definition rank_suit :: matcher where
  "rank_suit prev s =
     (case s of
        r # su # rest \<Rightarrow>
          if is_rank r \<and> is_suit su \<and> word_ends rest then Some ([r, BSL, su], 1) else None
      | _ \<Rightarrow> None)"

text \<open>\<open>(\d)([CDHS])\b\<close>, replaced by \<open>\1\\\2\<close>.\<close>

definition digit_suit :: matcher where
  "digit_suit prev s =
     (case s of
        d # su # rest \<Rightarrow>
          if is_decimal d \<and> is_suit su \<and> word_ends rest then Some ([d, BSL, su], 1) else None
      | _ \<Rightarrow> None)"

text \<open>\<open>\b([CDHS]) (keycard)\<close>, replaced by \<open>\\\1 \2\<close>.\<close>

definition suit_keycard :: matcher where
  "suit_keycard prev s =
     (case s of
        [] \<Rightarrow> None
      | su # rest \<Rightarrow>
          if word_starts prev \<and> is_suit su \<and> startswith rest (py '' keycard'')
          then Some ([BSL, su] @ py '' keycard'', 8) else None)"

text \<open>\<open>(for )([CDHS])\b\<close>, replaced by \<open>\1\\\2\<close>.\<close>

definition for_suit :: matcher where
  "for_suit prev s =
     (if startswith s (py ''for '') then
        (case drop 4 s of
           su # rest \<Rightarrow>
             if is_suit su \<and> word_ends rest then Some (py ''for '' @ [BSL, su], 4) else None
         | [] \<Rightarrow> None)
      else None)"

definition add_suit_symbols :: "pystr \<Rightarrow> pystr" where
  "add_suit_symbols text =
     re_sub for_suit None
       (re_sub suit_keycard None
         (re_sub digit_suit None
           (re_sub rank_suit None
             (re_sub count_suit None text))))"

section \<open>An auction text as plain stretches and parenthesised groups\<close>

text \<open>
  For the claim about footnote extraction, an auction text is written as the stretches of
  plain text that have no opening parenthesis, each followed by a group in parentheses,
  and the plain text after the last group. \<open>marked\<close> and \<open>numbered\<close> say in the words of
  the specification what extraction makes of it: every group, with the white space right
  before it, gives way to a space and the marker \<open>=N=\<close>, and the text inside the group
  becomes the footnote \<open>N:text\<close>, \<open>N\<close> counting from one.
\<close>

fun render :: "(pystr \<times> pystr) list \<Rightarrow> pystr \<Rightarrow> pystr" where
  "render [] tail = tail"
| "render ((t, g) # segs) tail = t @ L1 CHR ''('' # g @ L1 CHR '')'' # render segs tail"

fun marked :: "nat \<Rightarrow> (pystr \<times> pystr) list \<Rightarrow> pystr \<Rightarrow> pystr" where
  "marked n [] tail = tail"
| "marked n ((t, g) # segs) tail = rstrip t @ flag (Suc n) @ marked (Suc n) segs tail"

fun numbered :: "nat \<Rightarrow> (pystr \<times> pystr) list \<Rightarrow> pystr list" where
  "numbered n [] = []"
| "numbered n ((t, g) # segs) = note_entry (Suc n) g # numbered (Suc n) segs"

definition plain :: "pystr \<Rightarrow> bool" where
  "plain t = (L1 CHR ''('' \<notin> set t)"

definition well_grouped :: "(pystr \<times> pystr) list \<Rightarrow> pystr \<Rightarrow> bool" where
  "well_grouped segs tail = (list_all (\<lambda>(t, g). plain t \<and> balanced g) segs \<and> plain tail)"

text \<open>One row of stage 3: the bid notes and the deal notes both get their suit symbols.\<close>

definition stage3_row :: "pystr \<times> pystr \<times> pystr \<Rightarrow> pystr \<times> pystr \<times> pystr \<times> pystr" where
  "stage3_row row =
     (case row of (deal, auction, notes) \<Rightarrow>
        (let (cleaned_auction, bid_notes) = extract_bid_notes auction
         in (deal, cleaned_auction, add_suit_symbols bid_notes, add_suit_symbols notes)))"

section \<open>Escaping as the insertion of backslashes\<close>

text \<open>
  For the claims about running the escaping twice. Rules (b) to (e) only insert a
  backslash before certain suit letters: \<open>ins g\<close> copies a text and puts a backslash
  before every character at which \<open>g\<close> holds; \<open>g\<close> sees the text before the character,
  latest character first, the character, and the text after it. A rule that asks for a
  word end after a suit letter is described by the texts \<open>K\<close> it matches up to that
  letter: \<open>hits K s\<close> says that the rule matches at the start of \<open>s\<close>, \<open>clear K s\<close> that
  it matches nowhere in \<open>s\<close>.
\<close>

fun prev_of :: "pystr \<Rightarrow> pychar option" where
  "prev_of [] = None"
| "prev_of (h # hist) = Some h"

fun ins :: "(pystr \<Rightarrow> pychar \<Rightarrow> pystr \<Rightarrow> bool) \<Rightarrow> pystr \<Rightarrow> pystr \<Rightarrow> pystr" where
  "ins g hist [] = []"
| "ins g hist (c # cs) = (if g hist c cs then [BSL, c] else [c]) @ ins g (c # hist) cs"

definition hits :: "(pystr \<Rightarrow> bool) \<Rightarrow> pystr \<Rightarrow> bool" where
  "hits K s = (\<exists>pre rest. s = pre @ rest \<and> K pre \<and> word_ends rest)"

fun clear :: "(pystr \<Rightarrow> bool) \<Rightarrow> pystr \<Rightarrow> bool" where
  "clear K [] = True"
| "clear K (c # cs) = (\<not> hits K (c # cs) \<and> clear K cs)"

definition K_count :: "pystr \<Rightarrow> bool" where
  "K_count pre = (\<exists>d run u. pre = d # run @ [L1 CHR '' '', u] \<and> is_decimal d
                    \<and> (\<forall>c \<in> set run. is_count_char c) \<and> is_suit u)"

definition K_rank :: "pystr \<Rightarrow> bool" where
  "K_rank pre = (\<exists>r u. pre = [r, u] \<and> is_rank r \<and> is_suit u)"

definition K_digit :: "pystr \<Rightarrow> bool" where
  "K_digit pre = (\<exists>d u. pre = [d, u] \<and> is_decimal d \<and> is_suit u)"

definition K_for :: "pystr \<Rightarrow> bool" where
  "K_for pre = (\<exists>u. pre = py ''for '' @ [u] \<and> is_suit u)"

definition g_rank :: "pystr \<Rightarrow> pychar \<Rightarrow> pystr \<Rightarrow> bool" where
  "g_rank hist u rest =
     (case hist of [] \<Rightarrow> False | h # _ \<Rightarrow> is_rank h \<and> is_suit u \<and> word_ends rest)"

definition g_digit :: "pystr \<Rightarrow> pychar \<Rightarrow> pystr \<Rightarrow> bool" where
  "g_digit hist u rest =
     (case hist of [] \<Rightarrow> False | h # _ \<Rightarrow> is_decimal h \<and> is_suit u \<and> word_ends rest)"

definition g_keycard :: "pystr \<Rightarrow> pychar \<Rightarrow> pystr \<Rightarrow> bool" where
  "g_keycard hist u rest =
     (word_starts (prev_of hist) \<and> is_suit u \<and> startswith rest (py '' keycard''))"

definition g_for :: "pystr \<Rightarrow> pychar \<Rightarrow> pystr \<Rightarrow> bool" where
  "g_for hist u rest = (take 4 hist = rev (py ''for '') \<and> is_suit u \<and> word_ends rest)"

text \<open>Rule (d) matches nowhere in a text.\<close>

fun keycard_free :: "pychar option \<Rightarrow> pystr \<Rightarrow> bool" where
  "keycard_free prev [] = True"
| "keycard_free prev (c # cs) = (suit_keycard prev (c # cs) = None \<and> keycard_free (Some c) cs)"

text \<open>
  What the argument needs of a rule and of an insertion: the texts of \<open>K\<close> have no
  backslash and end in a suit letter; \<open>g\<close> never holds right after a suit letter; and
  \<open>g\<close> holds somewhere after the first character of every match of \<open>K\<close>.
\<close>

definition suit_window :: "(pystr \<Rightarrow> bool) \<Rightarrow> bool" where
  "suit_window K = (\<forall>pre. K pre \<longrightarrow> pre \<noteq> [] \<and> BSL \<notin> set pre \<and> is_suit (last pre))"

definition not_after_suit :: "(pystr \<Rightarrow> pychar \<Rightarrow> pystr \<Rightarrow> bool) \<Rightarrow> bool" where
  "not_after_suit g = (\<forall>h hist c rest. g (h # hist) c rest \<longrightarrow> \<not> is_suit h)"

definition caught :: "(pystr \<Rightarrow> bool) \<Rightarrow> (pystr \<Rightarrow> pychar \<Rightarrow> pystr \<Rightarrow> bool) \<Rightarrow> bool" where
  "caught K g = (\<forall>c pre hist rest. K (c # pre) \<and> word_ends rest \<longrightarrow>
     (\<exists>p1 x p2. pre = p1 @ x # p2 \<and> g (rev p1 @ c # hist) x (p2 @ rest)))"

text \<open>What rule (a) asks of the text after its first digit.\<close>

definition count_tail :: "pystr \<Rightarrow> bool" where
  "count_tail t = (case dropWhile is_count_char t of
                     sp # su # rest \<Rightarrow> sp = L1 CHR '' '' \<and> is_suit su \<and> word_ends rest
                   | _ \<Rightarrow> False)"

section \<open>Lesson commentary (generate_lesson.py)\<close>

definition NL :: pychar where
  "NL = L1 (CHR 0x0A)"

text \<open>
  \<open>str.upper\<close>, character by character. The sharp s becomes \<open>SS\<close>. The upper-case forms
  of the micro sign and of y with diaeresis lie outside the characters modelled; \<open>upper\<close>
  is then \<open>None\<close>, and the program only compares \<open>upper\<close> with texts of ASCII letters,
  which such a text never equals.
\<close>

fun upper_char :: "pychar \<Rightarrow> pystr option" where
  "upper_char (L1 c) = (let n = (of_char c :: nat) in
     if (97 \<le> n \<and> n \<le> 122) \<or> (224 \<le> n \<and> n \<le> 246) \<or> (248 \<le> n \<and> n \<le> 254)
     then Some [L1 (char_of (n - 32))]
     else if n = 223 then Some (py ''SS'')
     else if n = 181 \<or> n = 255 then None
     else Some [L1 c])"
| "upper_char EnDash = Some [EnDash]"

fun upper :: "pystr \<Rightarrow> pystr option" where
  "upper [] = Some []"
| "upper (c # cs) =
     (case upper_char c of
        None \<Rightarrow> None
      | Some u \<Rightarrow> (case upper cs of None \<Rightarrow> None | Some us \<Rightarrow> Some (u @ us)))"

definition endswith :: "pystr \<Rightarrow> pystr \<Rightarrow> bool" where
  "endswith s p = (length p \<le> length s \<and> drop (length s - length p) s = p)"

text \<open>\<open>bid.rstrip('?')\<close>.\<close>

definition rstrip_question :: "pystr \<Rightarrow> pystr" where
  "rstrip_question s = rev (dropWhile (\<lambda>c. c = L1 CHR ''?'') (rev s))"

text \<open>
  \<open>re.match(r'^(\d)(C|D|H|S)$', bid)\<close>: a digit and a suit letter, and nothing after them
  but, as \<open>$\<close> allows, one line feed.
\<close>

definition level_suit :: "pystr \<Rightarrow> (pychar \<times> pychar) option" where
  "level_suit bid =
     (case bid of
        d # su # rest \<Rightarrow>
          if is_decimal d \<and> is_suit su \<and> (rest = [] \<or> rest = [NL]) then Some (d, su) else None
      | _ \<Rightarrow> None)"

definition format_bid_display :: "pystr \<Rightarrow> pystr" where
  "format_bid_display bid0 =
     (let bid = rstrip_question bid0 in
      if upper bid = Some (py ''PASS'') \<or> upper bid = Some (py ''P'') then py ''pass''
      else (case level_suit bid of
              Some (d, su) \<Rightarrow> [d, BSL, su]
            | None \<Rightarrow> bid))"

definition format_meaning :: "pystr \<Rightarrow> pystr" where
  "format_meaning meaning =
     (if meaning = [] then []
      else if meaning = py ''waiting'' then py '' waiting''
      else if meaning = py ''cue'' \<or> meaning = py ''cue bid'' then py '' showing a control''
      else if startswith meaning (py ''to play'') then py '' '' @ meaning
      else if endswith meaning (py ''?'') then py '' asking '' @ meaning
      else if meaning = py ''sets trump'' \<or> meaning = py ''set trump'' then py '', setting trump''
      else if meaning = py ''sets suit'' \<or> meaning = py ''set suit'' then py '', setting the suit''
      else if meaning = py ''start cuebidding'' then py '', starting cuebidding''
      else if meaning = py ''forced'' then py '', forced''
      else if meaning = py ''relay'' then py '', a relay''
      else if contains (py ''keycard'') meaning \<and> \<not> contains (py ''keycards'') meaning
        then py '' asking '' @ meaning
      else if startswith meaning (py ''ask'') then py '', asking'' @ drop 3 meaning
      else py '' showing '' @ meaning)"

text \<open>
  One round of the loop of \<open>generate_south_commentary\<close>: the lines that the turn
  \<open>(seat, bid, note_num)\<close> appends to \<open>lines\<close>. \<open>notes\<close> is the dictionary of the board's
  footnotes; a turn without footnote has \<open>note_num = None\<close>, and the number \<open>0\<close> counts
  as none too.
\<close>

definition meaning_of :: "(nat \<rightharpoonup> pystr) \<Rightarrow> nat option \<Rightarrow> pystr" where
  "meaning_of notes note_num =
     (case note_num of
        None \<Rightarrow> []
      | Some n \<Rightarrow> if n = 0 then [] else (case notes n of None \<Rightarrow> [] | Some m \<Rightarrow> m))"

definition turn_lines :: "(nat \<rightharpoonup> pystr) \<Rightarrow> pystr \<times> pystr \<times> nat option \<Rightarrow> pystr list" where
  "turn_lines notes turn =
     (case turn of (seat, bid, note_num) \<Rightarrow>
        (let meaning = meaning_of notes note_num;
             display = format_bid_display bid
         in if seat = py ''N'' then
              [(if upper bid = Some (py ''PASS'') then py ''North passes''
                else if bid = py ''X'' then py ''North doubles''
                else if bid = py ''XX'' then py ''North redoubles''
                else py ''North bids '' @ display)
               @ format_meaning meaning @ py ''.'']
            else if seat = py ''S'' then
              [py ''What will you bid now? [BID '' @ display @ py '']'',
               (if upper bid = Some (py ''PASS'') then py ''You pass''
                else if bid = py ''X'' then py ''You double''
                else if bid = py ''XX'' then py ''You redouble''
                else py ''You bid '' @ display)
               @ format_meaning meaning @ py ''.'',
               []]
            else if seat = py ''E'' \<or> seat = py ''W'' then
              (let name = (if seat = py ''E'' then py ''East'' else py ''West'')
               in if upper bid \<noteq> Some (py ''PASS'') then
                    (if bid = py ''X'' then [name @ py '' doubles.'']
                     else if bid = py ''XX'' then [name @ py '' redoubles.'']
                     else [name @ py '' bids '' @ display @ py ''.''])
                  else [])
            else []))"

fun commentary_loop ::
  "(nat \<rightharpoonup> pystr) \<Rightarrow> (pystr \<times> pystr \<times> nat option) list \<Rightarrow> pystr list \<Rightarrow> pystr list" where
  "commentary_loop notes [] lines = lines"
| "commentary_loop notes (turn # bids) lines =
     commentary_loop notes bids (lines @ turn_lines notes turn)"

text \<open>
  The rest of \<open>generate_south_commentary\<close>. \<open>re.sub(r'^\{', '', text)\<close> drops an opening
  brace at the start; \<open>re.sub(r'\}\s*$', '', text)\<close> drops a closing brace that only
  white space follows, with that white space.
\<close>

definition drop_open_brace :: "pystr \<Rightarrow> pystr" where
  "drop_open_brace text = (if startswith text (py ''{'') then drop 1 text else text)"

definition drop_close_brace :: "pystr \<Rightarrow> pystr" where
  "drop_close_brace text =
     (let r = rstrip text in if r \<noteq> [] \<and> last r = L1 CHR ''}'' then butlast r else text)"

definition generate_south_commentary ::
  "(pystr \<times> pystr \<times> nat option) list \<Rightarrow> (nat \<rightharpoonup> pystr) \<Rightarrow> pystr \<Rightarrow> pystr \<Rightarrow> pystr" where
  "generate_south_commentary bids notes board_num existing_commentary =
     (let lines = commentary_loop notes bids [];
          body = strip (join [NL] lines);
          result = py ''{Precision 1C '' @ board_num @ py ''}'' @ [NL]
                   @ py ''{[show S]'' @ [NL, NL] @ body @ [NL, NL] @ py ''[show NS]'' @ [NL, NL];
          result2 =
            (if existing_commentary \<noteq> [] then
               (let text = strip (drop_close_brace (drop_open_brace existing_commentary))
                in if text \<noteq> [] then result @ text @ [NL, NL] else result)
             else result)
      in result2 @ py ''}'')"

section \<open>Writing the tagged document (generate_pbn.py, stage 4)\<close>

definition CR :: pychar where
  "CR = L1 (CHR 0x0D)"

text \<open>The double quote.\<close>

definition DQ :: pychar where
  "DQ = L1 (CHR 0x22)"

text \<open>\<open>s.split(sep)\<close> for a separator of one character.\<close>

fun split_on :: "pychar \<Rightarrow> pystr \<Rightarrow> pystr \<Rightarrow> pystr list" where
  "split_on sep current [] = [current]"
| "split_on sep current (c # cs) =
     (if c = sep then current # split_on sep [] cs else split_on sep (current @ [c]) cs)"

text \<open>\<open>s.split()\<close>: the words between runs of white space.\<close>

fun split_ws_loop :: "pystr \<Rightarrow> pystr \<Rightarrow> pystr list" where
  "split_ws_loop current [] = (if current = [] then [] else [current])"
| "split_ws_loop current (c # cs) =
     (if is_space c then (if current = [] then split_ws_loop [] cs
                          else current # split_ws_loop [] cs)
      else split_ws_loop (current @ [c]) cs)"

definition split_ws :: "pystr \<Rightarrow> pystr list" where
  "split_ws s = split_ws_loop [] s"

text \<open>
  A dictionary with string keys, as the list of its items; \<open>d.get(key, dflt)\<close>.
\<close>

type_synonym tags = "(pystr \<times> pystr) list"

definition dict_get :: "tags \<Rightarrow> pystr \<Rightarrow> pystr \<Rightarrow> pystr" where
  "dict_get d key dflt = (case map_of d key of None \<Rightarrow> dflt | Some v \<Rightarrow> v)"

text \<open>
  \<open>format_auction_lines\<close>: a bid and a following token that starts and ends with \<open>=\<close>
  make one bid; four bids make a line.
\<close>

fun group_bids :: "pystr list \<Rightarrow> pystr list" where
  "group_bids [] = []"
| "group_bids [bid] = [bid]"
| "group_bids (bid # nxt # tokens) =
     (if startswith nxt (py ''='') \<and> endswith nxt (py ''='')
      then (bid @ py '' '' @ nxt) # group_bids tokens
      else bid # group_bids (nxt # tokens))"

fun chunks4 :: "'a list \<Rightarrow> 'a list list" where
  "chunks4 (a # b # c # d # rest) = [a, b, c, d] # chunks4 rest"
| "chunks4 [] = []"
| "chunks4 xs = [xs]"

definition auction_body :: "pystr \<Rightarrow> pystr list" where
  "auction_body auction_str = map (join (py '' '')) (chunks4 (group_bids (split_ws auction_str)))"

definition format_auction_lines :: "pystr \<Rightarrow> pystr" where
  "format_auction_lines auction_str = join [NL] (auction_body auction_str)"

text \<open>
  A row of the stage 3 table: deal, auction, bid notes, notes. The text that \<open>stage4\<close>
  writes for a row whose board the reference document has.
\<close>

type_synonym stage3_record = "pystr \<times> pystr \<times> pystr \<times> pystr"

definition tag_line :: "pystr \<Rightarrow> pystr \<Rightarrow> pystr" where
  "tag_line tag v = py ''['' @ tag @ py '' '' @ [DQ] @ v @ [DQ] @ py '']'' @ [NL]"

definition board_text :: "tags \<Rightarrow> stage3_record \<Rightarrow> pystr" where
  "board_text board row =
     (case row of (deal_id, auction, bid_notes, notes) \<Rightarrow>
        tag_line (py ''Event'') (dict_get board (py ''Event'') [])
        @ tag_line (py ''Site'') (dict_get board (py ''Site'') [])
        @ tag_line (py ''Date'') (dict_get board (py ''Date'') [])
        @ tag_line (py ''Board'') deal_id
        @ tag_line (py ''West'') []
        @ tag_line (py ''North'') []
        @ tag_line (py ''East'') []
        @ tag_line (py ''South'') []
        @ tag_line (py ''Dealer'') (dict_get board (py ''Dealer'') (py ''N''))
        @ tag_line (py ''Vulnerable'') (dict_get board (py ''Vulnerable'') (py ''None''))
        @ tag_line (py ''Deal'') (dict_get board (py ''Deal'') [])
        @ tag_line (py ''Scoring'') []
        @ tag_line (py ''Declarer'') []
        @ tag_line (py ''Contract'') []
        @ tag_line (py ''Result'') []
        @ tag_line (py ''Auction'') (dict_get board (py ''Dealer'') (py ''N''))
        @ format_auction_lines auction @ [NL]
        @ (if bid_notes \<noteq> []
           then concat (map (tag_line (py ''Note'')) (split_on (L1 CHR ''|'') [] bid_notes))
           else [])
        @ (if notes \<noteq> [] then py ''{ '' @ notes @ py '' }'' @ [NL] else [])
        @ [NL])"

text \<open>
  \<open>boards.get(base_num)\<close> with \<open>base_num = deal_id.split('-')[0]\<close>; a row without
  board, or with an empty one, is skipped.
\<close>

definition base_num :: "pystr \<Rightarrow> pystr" where
  "base_num deal_id = takeWhile (\<lambda>c. c \<noteq> L1 CHR ''-'') deal_id"

definition resolve :: "(pystr \<times> tags) list \<Rightarrow> stage3_record \<Rightarrow> tags option" where
  "resolve boards row =
     (case map_of boards (base_num (fst row)) of
        None \<Rightarrow> None
      | Some board \<Rightarrow> if board = [] then None else Some board)"

definition pbn_header :: pystr where
  "pbn_header = py ''% PBN 2.1'' @ [NL] @ py ''% EXPORT'' @ [NL]
     @ py ''%Content-type: text/x-pbn; charset=ISO-8859-1'' @ [NL, NL]"

fun stage4_rows :: "(pystr \<times> tags) list \<Rightarrow> stage3_record list \<Rightarrow> pystr" where
  "stage4_rows boards [] = []"
| "stage4_rows boards (row # rows) =
     (case resolve boards row of
        None \<Rightarrow> stage4_rows boards rows
      | Some board \<Rightarrow> board_text board row @ stage4_rows boards rows)"

definition stage4 :: "(pystr \<times> tags) list \<Rightarrow> stage3_record list \<Rightarrow> pystr" where
  "stage4 boards rows = pbn_header @ stage4_rows boards rows"

section \<open>Reading the tagged document (generate_lesson.py)\<close>

text \<open>
  Reading a file in text mode turns \<open>\r\n\<close> and \<open>\r\<close> into \<open>\n\<close>.
\<close>

fun universal_newlines :: "pystr \<Rightarrow> pystr" where
  "universal_newlines [] = []"
| "universal_newlines [c] = (if c = CR then [NL] else [c])"
| "universal_newlines (c # d # cs) =
     (if c = CR \<and> d = NL then NL # universal_newlines cs
      else if c = CR then NL # universal_newlines (d # cs)
      else c # universal_newlines (d # cs))"

text \<open>
  \<open>re.match(r'\[(\w+)\s+"(.*)"\]', stripped)\<close>. After the bracket come the longest run
  of word characters and the longest run of white space, both non-empty, and a quote
  (no shorter run can be followed by what the pattern asks next). \<open>.*\<close> is greedy and
  does not pass a line feed: the value ends at the last \<open>"]\<close> before the first line feed.
\<close>

fun last_quote_bracket :: "pystr \<Rightarrow> pystr option" where
  "last_quote_bracket [] = None"
| "last_quote_bracket (c # cs) =
     (case last_quote_bracket cs of
        Some v \<Rightarrow> Some (c # v)
      | None \<Rightarrow> if c = DQ \<and> take 1 cs = py '']'' then Some [] else None)"

definition tag_match :: "pystr \<Rightarrow> (pystr \<times> pystr) option" where
  "tag_match stripped =
     (case stripped of
        [] \<Rightarrow> None
      | b # rest \<Rightarrow>
          if b \<noteq> L1 CHR ''['' then None
          else (let tag = takeWhile is_word rest;
                    after_tag = dropWhile is_word rest;
                    after_space = dropWhile is_space after_tag
                in if tag = [] \<or> takeWhile is_space after_tag = [] then None
                   else (case after_space of
                           [] \<Rightarrow> None
                         | q # body \<Rightarrow>
                             if q \<noteq> DQ then None
                             else (case last_quote_bracket (takeWhile (\<lambda>c. c \<noteq> NL) body) of
                                     None \<Rightarrow> None
                                   | Some v \<Rightarrow> Some (tag, v)))))"

text \<open>\<open>int(digits)\<close> for a run of decimal digits.\<close>

definition int_of_digits :: "pystr \<Rightarrow> nat" where
  "int_of_digits ds = foldl (\<lambda>n c. 10 * n + (code_point c - 48)) 0 ds"

text \<open>
  \<open>re.match(r'(\d+):(.+)', value)\<close>: the longest run of digits, non-empty, a colon, and
  at least one character that is not a line feed.
\<close>

definition note_match :: "pystr \<Rightarrow> (nat \<times> pystr) option" where
  "note_match v =
     (let ds = takeWhile is_decimal v in
      if ds = [] then None
      else (case dropWhile is_decimal v of
              [] \<Rightarrow> None
            | colon # rest \<Rightarrow>
                if colon \<noteq> L1 CHR '':'' \<or> takeWhile (\<lambda>c. c \<noteq> NL) rest = [] then None
                else Some (int_of_digits ds, takeWhile (\<lambda>c. c \<noteq> NL) rest)))"

text \<open>\<open>d[key] = v\<close> on a dictionary kept as the list of its items.\<close>

fun dict_set :: "'k \<Rightarrow> 'v \<Rightarrow> ('k \<times> 'v) list \<Rightarrow> ('k \<times> 'v) list" where
  "dict_set k v [] = [(k, v)]"
| "dict_set k v ((k', v') # d) = (if k' = k then (k, v) # d else (k', v') # dict_set k v d)"

record board =
  meta_tags :: "(pystr \<times> pystr) list"
  auction_dealer :: pystr
  auction_lines :: "pystr list"
  note_dict :: "(nat \<times> pystr) list"
  note_lines :: "pystr list"
  commentary :: pystr

definition new_board :: board where
  "new_board = \<lparr>meta_tags = [], auction_dealer = py ''N'', auction_lines = [],
                 note_dict = [], note_lines = [], commentary = []\<rparr>"

record parser =
  boards :: "board list"
  current :: "board option"
  in_auction :: bool
  in_commentary :: bool
  commentary_text :: pystr

text \<open>
  \<open>if current: ...; boards.append(current)\<close>, at an \<open>Event\<close> tag and at the end of the
  document.
\<close>

definition flush :: "parser \<Rightarrow> parser" where
  "flush st =
     (case current st of
        None \<Rightarrow> st
      | Some cur \<Rightarrow>
          if commentary_text st \<noteq> []
          then st\<lparr>boards := boards st @ [cur\<lparr>commentary := strip (commentary_text st)\<rparr>],
                  commentary_text := []\<rparr>
          else st\<lparr>boards := boards st @ [cur]\<rparr>)"

text \<open>
  One round of the loop over the lines. A tag other than \<open>Event\<close> before the first
  \<open>Event\<close> reads a field of \<open>None\<close> and raises \<open>TypeError\<close>.
\<close>

definition on_tag :: "parser \<Rightarrow> pystr \<Rightarrow> pystr \<Rightarrow> pystr \<Rightarrow> py_error + parser" where
  "on_tag st0 stripped tag v =
     (let st = (if tag = py ''Event''
                then (flush st0)\<lparr>current := Some new_board, in_auction := False,
                                 in_commentary := False\<rparr>
                else st0)
      in case current st of
           None \<Rightarrow> Inl TypeError
         | Some cur \<Rightarrow>
             if tag = py ''Auction'' then
               Inr (st\<lparr>current := Some (cur\<lparr>auction_dealer := v\<rparr>), in_auction := True\<rparr>)
             else if tag = py ''Note'' then
               (let cur1 = cur\<lparr>note_lines := note_lines cur @ [stripped]\<rparr>;
                    cur2 = (case note_match v of
                              None \<Rightarrow> cur1
                            | Some (n, t) \<Rightarrow> cur1\<lparr>note_dict := dict_set n t (note_dict cur1)\<rparr>)
                in Inr (st\<lparr>current := Some cur2, in_auction := False\<rparr>))
             else
               Inr (st\<lparr>current := Some (cur\<lparr>meta_tags := meta_tags cur @ [(tag, v)]\<rparr>)\<rparr>))"

definition parse_line :: "parser \<Rightarrow> pystr \<Rightarrow> py_error + parser" where
  "parse_line st line =
     (let stripped = strip line in
      if startswith stripped (py ''%'') then Inr st
      else (case tag_match stripped of
              Some (tag, v) \<Rightarrow> on_tag st stripped tag v
            | None \<Rightarrow>
                if startswith stripped (py ''{'') then
                  Inr (st\<lparr>in_auction := False,
                          in_commentary := \<not> (L1 CHR ''}'' \<in> set (drop 1 stripped)),
                          commentary_text := commentary_text st @ stripped @ [NL]\<rparr>)
                else if in_commentary st then
                  Inr (st\<lparr>in_commentary := \<not> (L1 CHR ''}'' \<in> set stripped),
                          commentary_text := commentary_text st @ stripped @ [NL]\<rparr>)
                else if in_auction st \<and> stripped \<noteq> [] then
                  (case current st of
                     None \<Rightarrow> Inl TypeError
                   | Some cur \<Rightarrow>
                       Inr (st\<lparr>current := Some (cur\<lparr>auction_lines := auction_lines cur @ [stripped]\<rparr>)\<rparr>))
                else Inr st))"

fun parse_lines :: "parser \<Rightarrow> pystr list \<Rightarrow> py_error + parser" where
  "parse_lines st [] = Inr st"
| "parse_lines st (line # lines) =
     (case parse_line st line of Inl e \<Rightarrow> Inl e | Inr st' \<Rightarrow> parse_lines st' lines)"

definition parser_start :: parser where
  "parser_start = \<lparr>boards = [], current = None, in_auction = False, in_commentary = False,
                    commentary_text = []\<rparr>"

text \<open>\<open>parse_boards\<close> on the text of the file, as written.\<close>

definition parse_boards :: "pystr \<Rightarrow> py_error + board list" where
  "parse_boards written =
     (let content = universal_newlines written;
          lines = split_on NL [] content
      in case parse_lines parser_start lines of
           Inl e \<Rightarrow> Inl e
         | Inr st \<Rightarrow> Inr (boards (flush st)))"

text \<open>What the round trip is about: the dealer, the auction lines and the footnotes of a board.\<close>

definition board_view :: "board \<Rightarrow> pystr \<times> pystr list \<times> (nat \<times> pystr) set" where
  "board_view b = (auction_dealer b, auction_lines b, set (note_dict b))"

section \<open>Stage 3 records with their footnotes\<close>

text \<open>
  For the round trip a stage 3 record is given with its footnotes as a list of numbers
  and texts; its row in the table has them joined as \<open>N:text\<close> with bars, the way
  \<open>extract_bid_notes\<close> writes them.
\<close>

type_synonym noted_record = "pystr \<times> pystr \<times> (nat \<times> pystr) list \<times> pystr"

definition notes_string :: "(nat \<times> pystr) list \<Rightarrow> pystr" where
  "notes_string fns = join (py ''|'') (map (\<lambda>(k, t). note_entry k t) fns)"

definition row_of :: "noted_record \<Rightarrow> stage3_record" where
  "row_of r = (case r of (deal_id, auction, fns, notes) \<Rightarrow>
                 (deal_id, auction, notes_string fns, notes))"

definition no_break :: "pystr \<Rightarrow> bool" where
  "no_break s = (NL \<notin> set s \<and> CR \<notin> set s)"

text \<open>
  The records for which the round trip holds: no value has a line break in it; no line of
  the auction body starts with \<open>%\<close> or \<open>{\<close> or reads as a tag; the footnote numbers
  differ, and every footnote text is non-empty and has neither a bar nor a line break.
\<close>

definition body_line_ok :: "pystr \<Rightarrow> bool" where
  "body_line_ok l = (\<not> startswith l (py ''%'') \<and> \<not> startswith l (py ''{'') \<and> tag_match l = None)"

definition footnote_ok :: "nat \<times> pystr \<Rightarrow> bool" where
  "footnote_ok f = (case f of (k, t) \<Rightarrow> t \<noteq> [] \<and> no_break t \<and> L1 CHR ''|'' \<notin> set t)"

definition record_ok :: "tags \<Rightarrow> noted_record \<Rightarrow> bool" where
  "record_ok board r =
     (case r of (deal_id, auction, fns, notes) \<Rightarrow>
        list_all (\<lambda>(key, v). no_break v) board
        \<and> no_break deal_id \<and> no_break notes
        \<and> list_all body_line_ok (auction_body auction)
        \<and> distinct (map fst fns) \<and> list_all footnote_ok fns)"

definition records_ok :: "(pystr \<times> tags) list \<Rightarrow> noted_record list \<Rightarrow> bool" where
  "records_ok refs recs =
     list_all (\<lambda>r. case resolve refs (row_of r) of None \<Rightarrow> True | Some board \<Rightarrow> record_ok board r)
       recs"

text \<open>What a record should read back as: dealer, auction lines, footnotes.\<close>

definition expected_view ::
  "(pystr \<times> tags) list \<Rightarrow> noted_record \<Rightarrow> pystr \<times> pystr list \<times> (nat \<times> pystr) set" where
  "expected_view refs r =
     (case r of (deal_id, auction, fns, notes) \<Rightarrow>
        (case resolve refs (row_of r) of
           None \<Rightarrow> ([], [], {})
         | Some board \<Rightarrow> (dict_get board (py ''Dealer'') (py ''N''), auction_body auction, set fns)))"

definition resolved :: "(pystr \<times> tags) list \<Rightarrow> noted_record \<Rightarrow> bool" where
  "resolved refs r = (resolve refs (row_of r) \<noteq> None)"

section \<open>The written document as lines\<close>

definition unlines :: "pystr list \<Rightarrow> pystr" where
  "unlines ls = concat (map (\<lambda>l. l @ [NL]) ls)"

definition tag_text :: "pystr \<Rightarrow> pystr \<Rightarrow> pystr" where
  "tag_text tag v = py ''['' @ tag @ py '' '' @ [DQ] @ v @ [DQ] @ py '']''"

definition head_tags :: "tags \<Rightarrow> pystr \<Rightarrow> (pystr \<times> pystr) list" where
  "head_tags board deal_id =
     [(py ''Site'', dict_get board (py ''Site'') []),
      (py ''Date'', dict_get board (py ''Date'') []),
      (py ''Board'', deal_id),
      (py ''West'', []), (py ''North'', []), (py ''East'', []), (py ''South'', []),
      (py ''Dealer'', dict_get board (py ''Dealer'') (py ''N'')),
      (py ''Vulnerable'', dict_get board (py ''Vulnerable'') (py ''None'')),
      (py ''Deal'', dict_get board (py ''Deal'') []),
      (py ''Scoring'', []), (py ''Declarer'', []), (py ''Contract'', []), (py ''Result'', [])]"

definition body_lines :: "pystr \<Rightarrow> pystr list" where
  "body_lines auction = (if auction_body auction = [] then [[]] else auction_body auction)"

definition entry_lines :: "pystr \<Rightarrow> pystr list" where
  "entry_lines bid_notes =
     (if bid_notes \<noteq> [] then map (tag_text (py ''Note'')) (split_on (L1 CHR ''|'') [] bid_notes)
      else [])"

definition comment_lines :: "pystr \<Rightarrow> pystr list" where
  "comment_lines notes = (if notes \<noteq> [] then [py ''{ '' @ notes @ py '' }''] else [])"

definition block_lines :: "tags \<Rightarrow> stage3_record \<Rightarrow> pystr list" where
  "block_lines board row =
     (case row of (deal_id, auction, bid_notes, notes) \<Rightarrow>
        tag_text (py ''Event'') (dict_get board (py ''Event'') [])
        # map (\<lambda>(tag, v). tag_text tag v) (head_tags board deal_id)
        @ [tag_text (py ''Auction'') (dict_get board (py ''Dealer'') (py ''N''))]
        @ body_lines auction @ entry_lines bid_notes @ comment_lines notes @ [[]])"

text \<open>
  What the parser holds while it reads a block: the boards it has finished, and the
  dealer, auction lines and footnotes of the board it is reading.
\<close>

definition tracks ::
  "parser \<Rightarrow> board list \<Rightarrow> pystr \<Rightarrow> pystr list \<Rightarrow> (nat \<times> pystr) list \<Rightarrow> bool \<Rightarrow> bool" where
  "tracks st bds dealer ls fns ia =
     (\<exists>cur. current st = Some cur \<and> boards st = bds \<and> auction_dealer cur = dealer
        \<and> auction_lines cur = ls \<and> note_dict cur = fns \<and> in_auction st = ia
        \<and> \<not> in_commentary st)"

text \<open>A text that is not empty, has no white space at either end and no line break.\<close>

definition clean :: "pystr \<Rightarrow> bool" where
  "clean s = (s \<noteq> [] \<and> \<not> is_space (hd s) \<and> \<not> is_space (last s) \<and> no_break s)"

text \<open>The lines of the whole document, and what is read back from the text written.\<close>

definition header_lines :: "pystr list" where
  "header_lines = [py ''% PBN 2.1'', py ''% EXPORT'',
                   py ''%Content-type: text/x-pbn; charset=ISO-8859-1'', []]"

definition record_lines :: "(pystr \<times> tags) list \<Rightarrow> noted_record \<Rightarrow> pystr list" where
  "record_lines refs r =
     (case resolve refs (row_of r) of None \<Rightarrow> [] | Some board \<Rightarrow> block_lines board (row_of r))"

definition read_back ::
  "(pystr \<times> tags) list \<Rightarrow> stage3_record list
     \<Rightarrow> py_error + (pystr \<times> pystr list \<times> (nat \<times> pystr) set) list" where
  "read_back refs rows =
     (case parse_boards (stage4 refs rows) of
        Inl e \<Rightarrow> Inl e
      | Inr bs \<Rightarrow> Inr (map board_view bs))"

section \<open>The closing loop\<close>

lemma pad_passes_fixed: "\<not> needs_pass out \<Longrightarrow> pad_passes out = out"
  by (subst pad_passes.simps) simp

lemma pad_passes_done: "\<not> needs_pass (pad_passes out)"
  by (induction out rule: pad_passes.induct) (subst pad_passes.simps, simp)

lemma pad_passes_length: "3 \<le> length (pad_passes out)"
  using pad_passes_done [of out] by (simp add: needs_pass_def)

lemma pad_passes_all: "list_all is_pass (last3 (pad_passes out))"
  using pad_passes_done [of out] by (simp add: needs_pass_def)

lemma pad_passes_Nil: "pad_passes [] = [py ''Pass'', py ''Pass'', py ''Pass'']"
  by code_simp








section \<open>Facts about parenthesis depth\<close>

lemma depth_after_append:
  "depth_after d (a @ b) = (case depth_after d a of None \<Rightarrow> None | Some e \<Rightarrow> depth_after e b)"
  by (induction a arbitrary: d) simp_all

lemma depth_after_plain:
  "L1 CHR ''('' \<notin> set p \<Longrightarrow> L1 CHR '')'' \<notin> set p \<Longrightarrow> depth_after d p = Some d"
  by (induction p) auto

section \<open>Facts for the round trip through the tagged document\<close>

lemma unlines_Cons: "unlines (l # ls) = l @ NL # unlines ls"
  by (simp add: unlines_def)

lemma unlines_append: "unlines (xs @ ys) = unlines xs @ unlines ys"
  by (simp add: unlines_def)

lemma tag_line_text: "tag_line tag v = tag_text tag v @ [NL]"
  by (simp add: tag_line_def tag_text_def)

lemma join_unlines: "ls \<noteq> [] \<Longrightarrow> join [NL] ls @ [NL] = unlines ls"
proof (induction ls)
  case Nil
  then show ?case by simp
next
  case (Cons l ls)
  then show ?case by (cases ls) (simp_all add: unlines_def)
qed

lemma body_unlines: "format_auction_lines auction @ [NL] = unlines (body_lines auction)"
  by (simp add: format_auction_lines_def body_lines_def join_unlines) (simp add: unlines_def)

lemma entry_unlines:
  "(if bid_notes \<noteq> []
    then concat (map (tag_line (py ''Note'')) (split_on (L1 CHR ''|'') [] bid_notes))
    else []) = unlines (entry_lines bid_notes)"
proof -
  have "tag_line (py ''Note'') = (\<lambda>x. tag_text (py ''Note'') x @ [NL])"
    by (rule ext) (rule tag_line_text)
  then show ?thesis by (simp add: entry_lines_def unlines_def comp_def)
qed

lemma comment_unlines:
  "(if notes \<noteq> [] then py ''{ '' @ notes @ py '' }'' @ [NL] else []) = unlines (comment_lines notes)"
  by (simp add: comment_lines_def unlines_def)

lemma board_text_lines: "board_text board row = unlines (block_lines board row)"
proof -
  obtain deal_id auction bid_notes nts where row: "row = (deal_id, auction, bid_notes, nts)"
    by (cases row)
  have "board_text board row =
        tag_line (py ''Event'') (dict_get board (py ''Event'') [])
        @ concat (map (\<lambda>(tag, v). tag_line tag v) (head_tags board deal_id))
        @ tag_line (py ''Auction'') (dict_get board (py ''Dealer'') (py ''N''))
        @ unlines (body_lines auction) @ unlines (entry_lines bid_notes)
        @ unlines (comment_lines nts) @ [NL]"
    unfolding board_text_def row prod.case entry_unlines comment_unlines
    by (simp add: head_tags_def body_unlines [symmetric])
  moreover have "concat (map (\<lambda>(tag, v). tag_line tag v) hs)
      = unlines (map (\<lambda>(tag, v). tag_text tag v) hs)" for hs
    by (induction hs) (auto simp: unlines_def tag_line_text)
  ultimately show ?thesis
    by (simp add: block_lines_def row unlines_append unlines_Cons tag_line_text)
       (simp add: unlines_def)
qed

lemma split_on_line:
  "sep \<notin> set l \<Longrightarrow> split_on sep cur (l @ sep # rest) = (cur @ l) # split_on sep [] rest"
  by (induction l arbitrary: cur) auto

lemma split_on_plain: "sep \<notin> set l \<Longrightarrow> split_on sep cur l = [cur @ l]"
  by (induction l arbitrary: cur) auto

lemma split_unlines:
  "\<forall>l \<in> set ls. NL \<notin> set l \<Longrightarrow> split_on NL [] (unlines ls) = ls @ [[]]"
proof (induction ls)
  case Nil
  then show ?case by (simp add: unlines_def)
next
  case (Cons l ls)
  then show ?case by (simp add: unlines_Cons split_on_line)
qed

lemma universal_newlines_id: "CR \<notin> set t \<Longrightarrow> universal_newlines t = t"
  by (induction t rule: universal_newlines.induct) auto

lemma set_unlines: "set (unlines ls) = (\<Union>l \<in> set ls. set l) \<union> (if ls = [] then {} else {NL})"
  by (induction ls) (auto simp: unlines_def)

lemma strip_id:
  assumes "s \<noteq> []" "\<not> is_space (hd s)" "\<not> is_space (last s)"
  shows "strip s = s"
proof -
  have l: "dropWhile is_space s = s" using assms(1,2) by (cases s) simp_all
  have "rev s \<noteq> []" "\<not> is_space (hd (rev s))" using assms(1,3) by (simp_all add: hd_rev)
  then have "dropWhile is_space (rev s) = rev s" by (cases "rev s") simp_all
  with l show ?thesis by (simp add: strip_def lstrip_def rstrip_def)
qed

lemma strip_Nil: "strip [] = []"
  by (simp add: strip_def lstrip_def rstrip_def)

lemma last_quote_bracket_end: "last_quote_bracket (v @ [DQ, L1 CHR '']'']) = Some v"
  by (induction v) (simp_all add: py_def)

lemma word_chars:
  "\<not> is_word (L1 CHR '' '')"
  "is_space (L1 CHR '' '')"
  "\<not> is_space DQ"
  "\<not> is_word DQ"
  "\<not> is_space (L1 (CHR 0x5B))"
  "\<not> is_space (L1 (CHR 0x5D))"
  "\<not> is_space (L1 (CHR 0x7B))"
  "\<not> is_space (L1 (CHR 0x7D))"
  by (simp_all add: is_word_def is_space_def DQ_def)

lemma tag_match_text:
  assumes "tag \<noteq> []" "\<forall>c \<in> set tag. is_word c" "NL \<notin> set v"
  shows "tag_match (tag_text tag v) = Some (tag, v)"
proof -
  let ?rest = "tag @ L1 CHR '' '' # DQ # v @ [DQ, L1 CHR '']'']"
  have tt: "tag_text tag v = L1 CHR ''['' # ?rest"
    by (simp add: tag_text_def py_def)
  have tw: "takeWhile is_word ?rest = tag"
    using assms(2) by (simp add: takeWhile_append2 word_chars)
  have dw: "dropWhile is_word ?rest = L1 CHR '' '' # DQ # v @ [DQ, L1 CHR '']'']"
    using assms(2) by (simp add: dropWhile_append2 word_chars)
  have nl: "takeWhile (\<lambda>c. c \<noteq> NL) (v @ [DQ, L1 CHR '']'']) = v @ [DQ, L1 CHR '']'']"
    using assms(3) by (intro takeWhile_eq_all_conv [THEN iffD2]) (auto simp: NL_def DQ_def)
  show ?thesis
    unfolding tt tag_match_def
    by (simp add: tw dw word_chars nl last_quote_bracket_end assms(1) del: takeWhile_append dropWhile_append)
qed

lemma tag_text_strip: "strip (tag_text tag v) = tag_text tag v"
  by (rule strip_id) (simp_all add: tag_text_def py_def word_chars)

lemma tag_text_percent: "\<not> startswith (tag_text tag v) (py ''%'')"
  by (simp add: tag_text_def py_def startswith_def)

lemma parse_line_tag:
  assumes "tag \<noteq> []" "\<forall>c \<in> set tag. is_word c" "NL \<notin> set v"
  shows "parse_line st (tag_text tag v) = on_tag st (tag_text tag v) tag v"
  by (simp add: parse_line_def tag_text_strip tag_text_percent tag_match_text [OF assms])

lemma tracks_flush:
  assumes "tracks st bds dealer ls fns ia"
  shows "map board_view (boards (flush st)) = map board_view bds @ [(dealer, ls, set fns)]"
proof -
  from assms obtain cur where "current st = Some cur" "boards st = bds"
    "auction_dealer cur = dealer" "auction_lines cur = ls" "note_dict cur = fns"
    by (auto simp: tracks_def)
  then show ?thesis by (simp add: flush_def board_view_def)
qed

lemma step_event:
  assumes "NL \<notin> set v"
  shows "\<exists>st'. parse_line st (tag_text (py ''Event'') v) = Inr st'
           \<and> tracks st' (boards (flush st)) (py ''N'') [] [] False"
proof -
  have w: "py ''Event'' \<noteq> []" "\<forall>c \<in> set (py ''Event''). is_word c"
    by (simp_all add: py_def is_word_def)
  have diff: "py ''Event'' \<noteq> py ''Auction''" "py ''Event'' \<noteq> py ''Note''"
    by (simp_all add: py_def)
  show ?thesis
    unfolding parse_line_tag [OF w assms]
    by (simp add: on_tag_def diff tracks_def new_board_def)
qed

lemma step_meta:
  assumes "tracks st bds dealer ls fns ia"
    and "tag \<noteq> []" "\<forall>c \<in> set tag. is_word c" "NL \<notin> set v"
    and "tag \<noteq> py ''Event''" "tag \<noteq> py ''Auction''" "tag \<noteq> py ''Note''"
  shows "\<exists>st'. parse_line st (tag_text tag v) = Inr st' \<and> tracks st' bds dealer ls fns ia"
proof -
  from assms(1) obtain cur where "current st = Some cur" by (auto simp: tracks_def)
  with assms(1) show ?thesis
    unfolding parse_line_tag [OF assms(2-4)]
    by (auto simp: on_tag_def assms(5-7) tracks_def)
qed

lemma step_auction:
  assumes "tracks st bds dealer ls fns ia" "NL \<notin> set v"
  shows "\<exists>st'. parse_line st (tag_text (py ''Auction'') v) = Inr st' \<and> tracks st' bds v ls fns True"
proof -
  have w: "py ''Auction'' \<noteq> []" "\<forall>c \<in> set (py ''Auction''). is_word c"
    by (simp_all add: py_def is_word_def)
  have diff: "py ''Auction'' \<noteq> py ''Event''" by (simp add: py_def)
  from assms(1) obtain cur where "current st = Some cur" by (auto simp: tracks_def)
  with assms(1) show ?thesis
    unfolding parse_line_tag [OF w assms(2)]
    by (auto simp: on_tag_def diff tracks_def)
qed

lemma digit_char_decimal: "n < 10 \<Longrightarrow> is_decimal (digit_char n)"
  by (simp add: is_decimal_def digit_char_def)

lemma digit_char_value: "n < 10 \<Longrightarrow> code_point (digit_char n) - 48 = n"
  by (simp add: digit_char_def)

lemma str_nat_decimal: "\<forall>c \<in> set (str_nat n). is_decimal c"
proof (induction n rule: str_nat.induct)
  case (1 n)
  show ?case
  proof (cases "n < 10")
    case True
    then show ?thesis by (subst str_nat.simps) (simp add: digit_char_decimal)
  next
    case False
    with 1 show ?thesis by (subst str_nat.simps) (simp add: digit_char_decimal)
  qed
qed

lemma str_nat_not_Nil: "str_nat n \<noteq> []"
  by (subst str_nat.simps) simp

lemma int_of_digits_snoc:
  "int_of_digits (ds @ [c]) = 10 * int_of_digits ds + (code_point c - 48)"
  by (simp add: int_of_digits_def)

lemma int_of_str_nat: "int_of_digits (str_nat n) = n"
proof (induction n rule: str_nat.induct)
  case (1 n)
  show ?case
  proof (cases "n < 10")
    case True
    then show ?thesis
      by (subst str_nat.simps) (simp add: int_of_digits_def digit_char_value)
  next
    case False
    with 1 have "int_of_digits (str_nat (n div 10)) = n div 10" by simp
    with False show ?thesis
      by (subst str_nat.simps) (simp add: int_of_digits_snoc digit_char_value)
  qed
qed

lemma note_match_entry:
  assumes "t \<noteq> []" "NL \<notin> set t"
  shows "note_match (note_entry k t) = Some (k, t)"
proof -
  have colon: "\<not> is_decimal (L1 CHR '':'')" by (simp add: is_decimal_def)
  have e: "note_entry k t = str_nat k @ L1 CHR '':'' # t"
    by (simp add: note_entry_def py_def)
  have tw: "takeWhile is_decimal (str_nat k @ L1 CHR '':'' # t) = str_nat k"
    using str_nat_decimal [of k] colon by (simp add: takeWhile_append2)
  have dw: "dropWhile is_decimal (str_nat k @ L1 CHR '':'' # t) = L1 CHR '':'' # t"
    using str_nat_decimal [of k] colon by (simp add: dropWhile_append2)
  have nl: "takeWhile (\<lambda>c. c \<noteq> NL) t = t"
    using assms(2) by (intro takeWhile_eq_all_conv [THEN iffD2]) auto
  show ?thesis
    unfolding e note_match_def
    by (simp add: tw dw nl str_nat_not_Nil int_of_str_nat assms(1) Let_def
        del: takeWhile_append dropWhile_append)
qed

lemma step_note:
  assumes "tracks st bds dealer ls fns ia" "t \<noteq> []" "NL \<notin> set t"
  shows "\<exists>st'. parse_line st (tag_text (py ''Note'') (note_entry k t)) = Inr st'
           \<and> tracks st' bds dealer ls (dict_set k t fns) False"
proof -
  have w: "py ''Note'' \<noteq> []" "\<forall>c \<in> set (py ''Note''). is_word c"
    by (simp_all add: py_def is_word_def)
  have diff: "py ''Note'' \<noteq> py ''Event''" "py ''Note'' \<noteq> py ''Auction''"
    by (simp_all add: py_def)
  have nl: "NL \<notin> set (note_entry k t)"
    using assms(3) str_nat_decimal [of k]
    by (auto simp: note_entry_def py_def NL_def is_decimal_def)
  from assms(1) obtain cur where "current st = Some cur" by (auto simp: tracks_def)
  with assms(1) show ?thesis
    unfolding parse_line_tag [OF w nl]
    by (auto simp: on_tag_def diff tracks_def note_match_entry [OF assms(2,3)] Let_def)
qed

lemma step_body:
  assumes "tracks st bds dealer ls fns True"
    and "l \<noteq> []" "\<not> is_space (hd l)" "\<not> is_space (last l)" "body_line_ok l"
  shows "\<exists>st'. parse_line st l = Inr st' \<and> tracks st' bds dealer (ls @ [l]) fns True"
proof -
  have s: "strip l = l" using assms(2-4) by (rule strip_id)
  from assms(1) obtain cur where "current st = Some cur" by (auto simp: tracks_def)
  with assms(1,2,5) show ?thesis
    by (auto simp: parse_line_def s body_line_ok_def tracks_def)
qed

lemma step_comment:
  assumes "tracks st bds dealer ls fns ia"
  shows "\<exists>st'. parse_line st (py ''{ '' @ n @ py '' }'') = Inr st'
           \<and> tracks st' bds dealer ls fns False"
proof -
  let ?l = "py ''{ '' @ n @ py '' }''"
  have s: "strip ?l = ?l" by (rule strip_id) (simp_all add: py_def word_chars)
  have m: "tag_match ?l = None" by (simp add: tag_match_def py_def)
  have p: "\<not> startswith ?l (py ''%'')" "startswith ?l (py ''{'')"
    by (simp_all add: py_def startswith_def)
  have c: "L1 CHR ''}'' \<in> set (drop (Suc 0) ?l)" by (simp add: py_def)
  from assms show ?thesis
    by (auto simp: parse_line_def s m p c tracks_def simp del: drop_append)
qed

lemma step_blank:
  assumes "\<not> in_commentary st"
  shows "parse_line st [] = Inr st"
  using assms by (simp add: parse_line_def strip_Nil tag_match_def startswith_def py_def)

lemma step_percent:
  assumes "l \<noteq> []" "hd l = L1 CHR ''%''" "\<not> is_space (last l)"
  shows "parse_line st l = Inr st"
proof -
  have "strip l = l" using assms by (intro strip_id) (simp_all add: is_space_def)
  moreover have "startswith l (py ''%'')" using assms(1,2) by (cases l) (simp_all add: startswith_def py_def)
  ultimately show ?thesis by (simp add: parse_line_def)
qed

lemma parse_lines_append:
  "parse_lines st (xs @ ys)
     = (case parse_lines st xs of Inl e \<Rightarrow> Inl e | Inr st' \<Rightarrow> parse_lines st' ys)"
  by (induction xs arbitrary: st) (simp_all split: sum.splits)

lemma breaks_are_spaces: "is_space NL" "is_space CR"
  by (simp_all add: is_space_def NL_def CR_def)

lemma split_ws_loop_tokens:
  "\<forall>c \<in> set cur. \<not> is_space c \<Longrightarrow>
   \<forall>t \<in> set (split_ws_loop cur s). t \<noteq> [] \<and> (\<forall>c \<in> set t. \<not> is_space c)"
proof (induction s arbitrary: cur)
  case Nil
  then show ?case by simp
next
  case (Cons c s)
  show ?case
  proof (cases "is_space c")
    case True
    have "\<forall>t \<in> set (split_ws_loop [] s). t \<noteq> [] \<and> (\<forall>c \<in> set t. \<not> is_space c)"
      by (rule Cons.IH) simp
    with True Cons.prems show ?thesis by simp
  next
    case False
    have "\<forall>t \<in> set (split_ws_loop (cur @ [c]) s). t \<noteq> [] \<and> (\<forall>c \<in> set t. \<not> is_space c)"
      using False Cons.prems by (intro Cons.IH) simp
    with False show ?thesis by simp
  qed
qed

lemma token_clean:
  assumes "t \<noteq> []" "\<forall>c \<in> set t. \<not> is_space c"
  shows "clean t"
proof -
  have "hd t \<in> set t" "last t \<in> set t" using assms(1) by simp_all
  moreover have "NL \<notin> set t" "CR \<notin> set t" using assms(2) breaks_are_spaces by auto
  ultimately show ?thesis using assms by (simp add: clean_def no_break_def)
qed

lemma split_ws_clean: "\<forall>t \<in> set (split_ws s). clean t"
  using split_ws_loop_tokens [of "[]" s] by (auto simp: split_ws_def intro: token_clean)

lemma clean_join2:
  assumes "clean a" "clean b"
  shows "clean (a @ py '' '' @ b)"
proof -
  from assms have a: "a \<noteq> []" and b: "b \<noteq> []" by (simp_all add: clean_def)
  have "hd (a @ py '' '' @ b) = hd a" using a by simp
  moreover have "last (a @ py '' '' @ b) = last b" using b by simp
  moreover have "no_break (a @ py '' '' @ b)"
    using assms by (simp add: clean_def no_break_def py_def NL_def CR_def)
  ultimately show ?thesis using assms a by (simp add: clean_def)
qed

lemma group_bids_clean:
  "\<forall>t \<in> set tokens. clean t \<Longrightarrow> \<forall>b \<in> set (group_bids tokens). clean b"
proof (induction tokens rule: group_bids.induct)
  case 1
  then show ?case by simp
next
  case (2 bid)
  then show ?case by simp
next
  case (3 bid nxt tokens)
  show ?case
  proof (cases "startswith nxt (py ''='') \<and> endswith nxt (py ''='')")
    case True
    have "clean (bid @ py '' '' @ nxt)" using "3.prems" by (intro clean_join2) simp_all
    moreover have "\<forall>b \<in> set (group_bids tokens). clean b"
      using True "3.prems" by (intro "3.IH"(1)) simp_all
    ultimately show ?thesis using True by simp
  next
    case False
    have "\<forall>b \<in> set (group_bids (nxt # tokens)). clean b"
      using False "3.prems" by (intro "3.IH"(2)) simp_all
    with False "3.prems" show ?thesis by auto
  qed
qed

lemma chunks4_parts:
  "\<forall>chunk \<in> set (chunks4 xs). chunk \<noteq> [] \<and> set chunk \<subseteq> set xs"
  by (induction xs rule: chunks4.induct) auto

lemma join_clean:
  "xs \<noteq> [] \<Longrightarrow> \<forall>x \<in> set xs. clean x \<Longrightarrow> clean (join (py '' '') xs)"
proof (induction xs)
  case Nil
  then show ?case by simp
next
  case (Cons x xs)
  show ?case
  proof (cases xs)
    case Nil
    with Cons.prems show ?thesis by simp
  next
    case (Cons y ys)
    with Cons.IH Cons.prems have "clean (join (py '' '') xs)" by simp
    with Cons.prems have "clean (x @ py '' '' @ join (py '' '') xs)"
      by (intro clean_join2) simp_all
    with Cons show ?thesis by simp
  qed
qed

lemma auction_body_clean: "\<forall>l \<in> set (auction_body a). clean l"
proof
  fix l assume "l \<in> set (auction_body a)"
  then obtain chunk where c: "chunk \<in> set (chunks4 (group_bids (split_ws a)))"
    and l: "l = join (py '' '') chunk"
    unfolding auction_body_def set_map by (rule imageE)
  have parts: "chunk \<noteq> [] \<and> set chunk \<subseteq> set (group_bids (split_ws a))"
    by (rule bspec [OF chunks4_parts c])
  have bids: "\<forall>b \<in> set (group_bids (split_ws a)). clean b"
    using split_ws_clean by (rule group_bids_clean)
  have "\<forall>x \<in> set chunk. clean x"
  proof
    fix x assume "x \<in> set chunk"
    with parts have "x \<in> set (group_bids (split_ws a))" by (meson subsetD)
    with bids show "clean x" by (rule bspec)
  qed
  with parts show "clean l" unfolding l by (intro join_clean) simp_all
qed

lemma run_meta:
  assumes "tracks st bds dealer ls fns ia"
    and "\<forall>(tag, v) \<in> set hs. tag \<noteq> [] \<and> (\<forall>c \<in> set tag. is_word c) \<and> NL \<notin> set v
          \<and> tag \<noteq> py ''Event'' \<and> tag \<noteq> py ''Auction'' \<and> tag \<noteq> py ''Note''"
  shows "\<exists>st'. parse_lines st (map (\<lambda>(tag, v). tag_text tag v) hs) = Inr st'
           \<and> tracks st' bds dealer ls fns ia"
  using assms
proof (induction hs arbitrary: st)
  case Nil
  then show ?case by simp
next
  case (Cons h hs)
  obtain tag v where h: "h = (tag, v)" by (cases h)
  with Cons.prems(2) have ok: "tag \<noteq> []" "\<forall>c \<in> set tag. is_word c" "NL \<notin> set v"
    "tag \<noteq> py ''Event''" "tag \<noteq> py ''Auction''" "tag \<noteq> py ''Note''" by simp_all
  from step_meta [OF Cons.prems(1) ok] obtain st1 where
    st1: "parse_line st (tag_text tag v) = Inr st1" "tracks st1 bds dealer ls fns ia" by blast
  from Cons.IH [OF st1(2)] Cons.prems(2) obtain st2 where
    "parse_lines st1 (map (\<lambda>(tag, v). tag_text tag v) hs) = Inr st2"
    "tracks st2 bds dealer ls fns ia" by auto
  with st1(1) show ?case by (simp add: h)
qed

lemma run_body:
  assumes "tracks st bds dealer ls fns True"
    and "\<forall>l \<in> set body. clean l \<and> body_line_ok l"
  shows "\<exists>st'. parse_lines st body = Inr st' \<and> tracks st' bds dealer (ls @ body) fns True"
  using assms
proof (induction body arbitrary: st ls)
  case Nil
  then show ?case by simp
next
  case (Cons l body)
  then have l: "l \<noteq> []" "\<not> is_space (hd l)" "\<not> is_space (last l)" "body_line_ok l"
    by (simp_all add: clean_def)
  from step_body [OF Cons.prems(1) l] obtain st1 where
    st1: "parse_line st l = Inr st1" "tracks st1 bds dealer (ls @ [l]) fns True" by blast
  from Cons.IH [OF st1(2)] Cons.prems(2) obtain st2 where
    "parse_lines st1 body = Inr st2" "tracks st2 bds dealer ((ls @ [l]) @ body) fns True" by auto
  with st1(1) show ?case by simp
qed

lemma dict_set_new: "k \<notin> fst ` set d \<Longrightarrow> dict_set k v d = d @ [(k, v)]"
  by (induction d) auto

lemma run_notes:
  assumes "tracks st bds dealer ls done ia"
    and "distinct (map fst (done @ fns))" "list_all footnote_ok fns"
  shows "\<exists>st' ia'. parse_lines st (map (\<lambda>(k, t). tag_text (py ''Note'') (note_entry k t)) fns) = Inr st'
           \<and> tracks st' bds dealer ls (done @ fns) ia'"
  using assms
proof (induction fns arbitrary: st "done" ia)
  case Nil
  then show ?case by auto
next
  case (Cons f fns)
  obtain k t where f: "f = (k, t)" by (cases f)
  with Cons.prems(3) have t: "t \<noteq> []" "NL \<notin> set t"
    by (simp_all add: footnote_ok_def no_break_def)
  from step_note [OF Cons.prems(1) t, of k] obtain st1 where
    st1: "parse_line st (tag_text (py ''Note'') (note_entry k t)) = Inr st1"
         "tracks st1 bds dealer ls (dict_set k t done) False" by blast
  have "k \<notin> fst ` set done" using Cons.prems(2) f by auto
  then have d: "dict_set k t done = done @ [(k, t)]" by (rule dict_set_new)
  have "\<exists>st' ia'. parse_lines st1 (map (\<lambda>(k, t). tag_text (py ''Note'') (note_entry k t)) fns) = Inr st'
           \<and> tracks st' bds dealer ls ((done @ [(k, t)]) @ fns) ia'"
    using st1(2) Cons.prems(2,3) unfolding d f by (intro Cons.IH) simp_all
  with st1(1) show ?case by (auto simp: f)
qed

lemma dict_get_no_break:
  assumes "list_all (\<lambda>(key, v). no_break v) board" "no_break dflt"
  shows "no_break (dict_get board key dflt)"
proof (cases "map_of board key")
  case None
  with assms(2) show ?thesis by (simp add: dict_get_def)
next
  case (Some v)
  then have "(key, v) \<in> set board" by (rule map_of_SomeD)
  with assms(1) have "no_break v" by (auto simp: list_all_iff)
  with Some show ?thesis by (simp add: dict_get_def)
qed

lemma no_break_literals: "no_break []" "no_break (py ''N'')" "no_break (py ''None'')"
  by (simp_all add: no_break_def py_def NL_def CR_def)

lemma head_tags_meta:
  "\<forall>(tag, v) \<in> set (head_tags board deal_id).
     tag \<noteq> [] \<and> (\<forall>c \<in> set tag. is_word c)
     \<and> tag \<noteq> py ''Event'' \<and> tag \<noteq> py ''Auction'' \<and> tag \<noteq> py ''Note''"
  by (simp add: head_tags_def py_def is_word_def)

lemma head_tags_values:
  assumes "list_all (\<lambda>(key, v). no_break v) board" "no_break deal_id"
  shows "\<forall>(tag, v) \<in> set (head_tags board deal_id). no_break v"
  using assms by (simp add: head_tags_def dict_get_no_break no_break_literals)

lemma split_join:
  "es \<noteq> [] \<Longrightarrow> \<forall>e \<in> set es. sep \<notin> set e \<Longrightarrow> split_on sep [] (join [sep] es) = es"
proof (induction es)
  case Nil
  then show ?case by simp
next
  case (Cons e es)
  show ?case
  proof (cases es)
    case Nil
    with Cons.prems show ?thesis by (simp add: split_on_plain)
  next
    case (Cons e2 es2)
    with Cons.IH Cons.prems have "split_on sep [] (join [sep] es) = es" by simp
    with Cons Cons.prems show ?thesis by (simp add: split_on_line)
  qed
qed

lemma join_not_Nil: "es \<noteq> [] \<Longrightarrow> hd es \<noteq> [] \<Longrightarrow> join sep es \<noteq> []"
proof (cases es)
  case Nil
  assume "es \<noteq> []"
  with Nil show ?thesis by simp
next
  case (Cons e es2)
  assume "hd es \<noteq> []"
  with Cons show ?thesis by (cases es2) simp_all
qed

lemma note_entry_plain:
  assumes "footnote_ok (k, t)"
  shows "L1 CHR ''|'' \<notin> set (note_entry k t)" "no_break (note_entry k t)" "note_entry k t \<noteq> []"
proof -
  have d: "\<forall>c \<in> set (str_nat k). is_decimal c" by (rule str_nat_decimal)
  then have "L1 CHR ''|'' \<notin> set (str_nat k)" "NL \<notin> set (str_nat k)" "CR \<notin> set (str_nat k)"
    by (auto simp: is_decimal_def NL_def CR_def)
  with assms show "L1 CHR ''|'' \<notin> set (note_entry k t)" "no_break (note_entry k t)"
    by (simp_all add: footnote_ok_def note_entry_def no_break_def py_def NL_def CR_def)
  show "note_entry k t \<noteq> []" by (simp add: note_entry_def py_def)
qed

lemma entry_lines_notes:
  assumes "list_all footnote_ok fns"
  shows "entry_lines (notes_string fns)
         = map (\<lambda>(k, t). tag_text (py ''Note'') (note_entry k t)) fns"
proof (cases fns)
  case Nil
  then show ?thesis by (simp add: entry_lines_def notes_string_def)
next
  case (Cons f fs)
  let ?es = "map (\<lambda>(k, t). note_entry k t) fns"
  have es: "?es \<noteq> []" using Cons by simp
  have plain: "\<forall>e \<in> set ?es. L1 CHR ''|'' \<notin> set e"
    using assms note_entry_plain(1) by (auto simp: list_all_iff)
  have "hd ?es \<noteq> []"
    using Cons note_entry_plain(3) assms by (cases f) (simp add: list_all_iff)
  with es have ne: "join [L1 CHR ''|''] ?es \<noteq> []" by (rule join_not_Nil)
  have sp: "split_on (L1 CHR ''|'') [] (join [L1 CHR ''|''] ?es) = ?es"
    using es plain by (rule split_join)
  have bar: "py ''|'' = [L1 CHR ''|'']" by (simp add: py_def)
  have ns: "notes_string fns = join [L1 CHR ''|''] ?es"
    by (simp add: notes_string_def bar)
  have "entry_lines (notes_string fns) = map (tag_text (py ''Note'')) ?es"
    unfolding entry_lines_def ns using ne sp by simp
  also have "\<dots> = map (\<lambda>(k, t). tag_text (py ''Note'') (note_entry k t)) fns"
    by (simp add: comp_def case_prod_unfold)
  finally show ?thesis .
qed

lemma tracks_calm: "tracks st bds dealer ls fns ia \<Longrightarrow> \<not> in_commentary st"
  by (auto simp: tracks_def)

lemma run_block:
  assumes "record_ok board (deal_id, auction, fns, nts)"
  shows "\<exists>st' ia. parse_lines st (block_lines board (row_of (deal_id, auction, fns, nts))) = Inr st'
           \<and> tracks st' (boards (flush st)) (dict_get board (py ''Dealer'') (py ''N''))
                (auction_body auction) fns ia"
proof -
  let ?dealer = "dict_get board (py ''Dealer'') (py ''N'')"
  let ?bds = "boards (flush st)"
  from assms have vals: "list_all (\<lambda>(key, v). no_break v) board" and did: "no_break deal_id"
    and body: "list_all body_line_ok (auction_body auction)"
    and dist: "distinct (map fst fns)" and fok: "list_all footnote_ok fns"
    by (simp_all add: record_ok_def)
  have ev: "NL \<notin> set (dict_get board (py ''Event'') [])"
    using dict_get_no_break [OF vals no_break_literals(1)] by (simp add: no_break_def)
  have dl: "NL \<notin> set ?dealer"
    using dict_get_no_break [OF vals no_break_literals(2)] by (simp add: no_break_def)
  from step_event [OF ev, of st] obtain s1 where
    s1: "parse_line st (tag_text (py ''Event'') (dict_get board (py ''Event'') [])) = Inr s1"
        "tracks s1 ?bds (py ''N'') [] [] False" by blast
  have meta: "\<forall>(tag, v) \<in> set (head_tags board deal_id).
      tag \<noteq> [] \<and> (\<forall>c \<in> set tag. is_word c) \<and> NL \<notin> set v
      \<and> tag \<noteq> py ''Event'' \<and> tag \<noteq> py ''Auction'' \<and> tag \<noteq> py ''Note''"
    using head_tags_meta [of board deal_id] head_tags_values [OF vals did]
    by (auto simp: no_break_def)
  from run_meta [OF s1(2) meta] obtain s2 where
    s2: "parse_lines s1 (map (\<lambda>(tag, v). tag_text tag v) (head_tags board deal_id)) = Inr s2"
        "tracks s2 ?bds (py ''N'') [] [] False" by blast
  from step_auction [OF s2(2) dl] obtain s3 where
    s3: "parse_line s2 (tag_text (py ''Auction'') ?dealer) = Inr s3"
        "tracks s3 ?bds ?dealer [] [] True" by blast
  have "\<exists>s4. parse_lines s3 (body_lines auction) = Inr s4
          \<and> tracks s4 ?bds ?dealer (auction_body auction) [] True"
  proof (cases "auction_body auction = []")
    case True
    have "parse_line s3 [] = Inr s3" using tracks_calm [OF s3(2)] by (rule step_blank)
    with True s3(2) show ?thesis by (simp add: body_lines_def)
  next
    case False
    have "\<forall>l \<in> set (auction_body auction). clean l \<and> body_line_ok l"
      using auction_body_clean [of auction] body by (simp add: list_all_iff)
    from run_body [OF s3(2) this] False show ?thesis by (simp add: body_lines_def)
  qed
  then obtain s4 where
    s4: "parse_lines s3 (body_lines auction) = Inr s4"
        "tracks s4 ?bds ?dealer (auction_body auction) [] True" by blast
  have "distinct (map fst ([] @ fns))" using dist by simp
  from run_notes [OF s4(2) this fok] obtain s5 ia5 where
    s5: "parse_lines s4 (entry_lines (notes_string fns)) = Inr s5"
        "tracks s5 ?bds ?dealer (auction_body auction) fns ia5"
    by (auto simp: entry_lines_notes [OF fok])
  have "\<exists>s6 ia6. parse_lines s5 (comment_lines nts) = Inr s6
          \<and> tracks s6 ?bds ?dealer (auction_body auction) fns ia6"
  proof (cases "nts = []")
    case True
    with s5(2) show ?thesis by (auto simp: comment_lines_def)
  next
    case False
    from step_comment [OF s5(2), of nts] False show ?thesis by (auto simp: comment_lines_def)
  qed
  then obtain s6 ia6 where
    s6: "parse_lines s5 (comment_lines nts) = Inr s6"
        "tracks s6 ?bds ?dealer (auction_body auction) fns ia6" by blast
  have s7: "parse_line s6 [] = Inr s6" using tracks_calm [OF s6(2)] by (rule step_blank)
  have "parse_lines st (block_lines board (row_of (deal_id, auction, fns, nts))) = Inr s6"
    unfolding block_lines_def row_of_def prod.case
    by (simp add: parse_lines_append s1(1) s2(1) s3(1) s4(1) s5(1) s6(1) s7)
  with s6(2) show ?thesis by blast
qed

lemma block_lines_no_break:
  assumes "record_ok board (deal_id, auction, fns, nts)"
  shows "\<forall>l \<in> set (block_lines board (row_of (deal_id, auction, fns, nts))). no_break l"
proof -
  from assms have vals: "list_all (\<lambda>(key, v). no_break v) board" and did: "no_break deal_id"
    and nn: "no_break nts" and fok: "list_all footnote_ok fns"
    by (simp_all add: record_ok_def)
  have tt: "no_break (tag_text tag v)" if "no_break tag" "no_break v" for tag v
    using that by (simp add: tag_text_def no_break_def py_def NL_def CR_def DQ_def)
  have w: "no_break tag" if "\<forall>c \<in> set tag. is_word c" for tag
    using that by (auto simp: no_break_def is_word_def NL_def CR_def)
  have lit: "no_break (py ''Event'')" "no_break (py ''Auction'')" "no_break (py ''Note'')"
    by (simp_all add: no_break_def py_def NL_def CR_def)
  have 1: "no_break (tag_text (py ''Event'') (dict_get board (py ''Event'') []))"
    by (intro tt lit dict_get_no_break [OF vals] no_break_literals)
  have 2: "\<forall>l \<in> set (map (\<lambda>(tag, v). tag_text tag v) (head_tags board deal_id)). no_break l"
  proof
    fix l assume "l \<in> set (map (\<lambda>(tag, v). tag_text tag v) (head_tags board deal_id))"
    then obtain tag v where tv: "(tag, v) \<in> set (head_tags board deal_id)" "l = tag_text tag v"
      by auto
    from tv(1) head_tags_meta [of board deal_id] have "\<forall>c \<in> set tag. is_word c" by auto
    then have "no_break tag" by (rule w)
    moreover from tv(1) head_tags_values [OF vals did] have "no_break v" by auto
    ultimately show "no_break l" unfolding tv(2) by (rule tt)
  qed
  have 3: "no_break (tag_text (py ''Auction'') (dict_get board (py ''Dealer'') (py ''N'')))"
    by (intro tt lit dict_get_no_break [OF vals] no_break_literals)
  have 4: "\<forall>l \<in> set (body_lines auction). no_break l"
    using auction_body_clean [of auction] by (auto simp: body_lines_def clean_def no_break_def)
  have 5: "\<forall>l \<in> set (entry_lines (notes_string fns)). no_break l"
  proof
    fix l assume "l \<in> set (entry_lines (notes_string fns))"
    then obtain k t where kt: "(k, t) \<in> set fns" "l = tag_text (py ''Note'') (note_entry k t)"
      by (auto simp: entry_lines_notes [OF fok])
    from kt(1) fok have "footnote_ok (k, t)" by (simp add: list_all_iff)
    then have "no_break (note_entry k t)" by (rule note_entry_plain(2))
    with lit(3) show "no_break l" unfolding kt(2) by (rule tt)
  qed
  have 6: "\<forall>l \<in> set (comment_lines nts). no_break l"
    using nn by (simp add: comment_lines_def no_break_def py_def NL_def CR_def)
  have 7: "no_break []" by (simp add: no_break_def)
  show ?thesis
    unfolding block_lines_def row_of_def prod.case
    using 1 2 3 4 5 6 7 by auto
qed

lemma header_unlines: "pbn_header = unlines header_lines"
  by (simp add: pbn_header_def header_lines_def unlines_def)

lemma stage4_rows_lines:
  "stage4_rows refs (map row_of recs) = unlines (concat (map (record_lines refs) recs))"
proof (induction recs)
  case Nil
  then show ?case by (simp add: unlines_def)
next
  case (Cons r recs)
  then show ?case
    by (cases "resolve refs (row_of r)")
       (simp_all add: record_lines_def unlines_append board_text_lines)
qed

lemma run_header: "parse_lines parser_start header_lines = Inr parser_start"
proof -
  have 1: "parse_line parser_start (py ''% PBN 2.1'') = Inr parser_start"
    by (rule step_percent) (simp_all add: py_def is_space_def)
  have 2: "parse_line parser_start (py ''% EXPORT'') = Inr parser_start"
    by (rule step_percent) (simp_all add: py_def is_space_def)
  have 3: "parse_line parser_start (py ''%Content-type: text/x-pbn; charset=ISO-8859-1'')
           = Inr parser_start"
    by (rule step_percent) (simp_all add: py_def is_space_def)
  have 4: "parse_line parser_start [] = Inr parser_start"
    by (rule step_blank) (simp add: parser_start_def)
  show ?thesis by (simp add: header_lines_def 1 2 3 4)
qed

lemma run_records:
  assumes "records_ok refs recs" "\<not> in_commentary st"
  shows "\<exists>st'. parse_lines st (concat (map (record_lines refs) recs)) = Inr st'
           \<and> \<not> in_commentary st'
           \<and> map board_view (boards (flush st'))
               = map board_view (boards (flush st))
                 @ map (expected_view refs) (filter (resolved refs) recs)"
  using assms
proof (induction recs arbitrary: st)
  case Nil
  then show ?case by simp
next
  case (Cons r recs)
  from Cons.prems(1) have rest: "records_ok refs recs" by (simp add: records_ok_def)
  show ?case
  proof (cases "resolve refs (row_of r)")
    case None
    from Cons.IH [OF rest Cons.prems(2)] None show ?thesis
      by (simp add: record_lines_def resolved_def)
  next
    case (Some board)
    obtain deal_id auction fns nts where r: "r = (deal_id, auction, fns, nts)"
      by (cases r)
    from Cons.prems(1) Some have ok: "record_ok board (deal_id, auction, fns, nts)"
      by (simp add: records_ok_def r)
    from run_block [OF ok, of st] obtain s1 ia where
      s1: "parse_lines st (block_lines board (row_of (deal_id, auction, fns, nts))) = Inr s1"
          "tracks s1 (boards (flush st)) (dict_get board (py ''Dealer'') (py ''N''))
             (auction_body auction) fns ia" by blast
    have calm: "\<not> in_commentary s1" using s1(2) by (rule tracks_calm)
    have fl: "map board_view (boards (flush s1))
              = map board_view (boards (flush st))
                @ [(dict_get board (py ''Dealer'') (py ''N''), auction_body auction, set fns)]"
      using s1(2) by (rule tracks_flush)
    have ev: "expected_view refs r
              = (dict_get board (py ''Dealer'') (py ''N''), auction_body auction, set fns)"
      using Some by (simp add: expected_view_def r)
    from Cons.IH [OF rest calm] obtain s2 where
      s2: "parse_lines s1 (concat (map (record_lines refs) recs)) = Inr s2"
          "\<not> in_commentary s2"
          "map board_view (boards (flush s2))
             = map board_view (boards (flush s1))
               @ map (expected_view refs) (filter (resolved refs) recs)" by blast
    have "parse_lines st (concat (map (record_lines refs) (r # recs))) = Inr s2"
      using Some s1(1) s2(1) by (simp add: record_lines_def r parse_lines_append)
    moreover have "map board_view (boards (flush s2))
        = map board_view (boards (flush st))
          @ map (expected_view refs) (filter (resolved refs) (r # recs))"
      using Some by (simp add: s2(3) fl ev resolved_def)
    ultimately show ?thesis using s2(2) by blast
  qed
qed

lemma record_lines_no_break:
  assumes "records_ok refs recs"
  shows "\<forall>l \<in> set (concat (map (record_lines refs) recs)). no_break l"
proof
  fix l assume "l \<in> set (concat (map (record_lines refs) recs))"
  then obtain r where r: "r \<in> set recs" "l \<in> set (record_lines refs r)" by auto
  then obtain board where b: "resolve refs (row_of r) = Some board"
    by (cases "resolve refs (row_of r)") (simp_all add: record_lines_def)
  obtain deal_id auction fns nts where rr: "r = (deal_id, auction, fns, nts)" by (cases r)
  from assms r(1) b have "record_ok board (deal_id, auction, fns, nts)"
    by (auto simp: records_ok_def list_all_iff rr)
  from block_lines_no_break [OF this] r(2) b show "no_break l"
    by (simp add: record_lines_def rr)
qed

lemma header_no_break: "\<forall>l \<in> set header_lines. no_break l"
  by (simp add: header_lines_def no_break_def py_def NL_def CR_def)


section \<open>Running the escaping twice\<close>

text \<open>An insertion copies every text without a backslash, and nothing fires inside it.\<close>

lemma ins_prefix:
  "BSL \<notin> set pre \<Longrightarrow> ins g hist s = pre @ rest' \<Longrightarrow>
   \<exists>rest. s = pre @ rest \<and> rest' = ins g (rev pre @ hist) rest
     \<and> (\<forall>p1 x p2. pre = p1 @ x # p2 \<longrightarrow> \<not> g (rev p1 @ hist) x (p2 @ rest))"
proof (induction pre arbitrary: s hist)
  case Nil
  then show ?case by simp
next
  case (Cons p pre)
  from Cons.prems(2) obtain c cs where s: "s = c # cs" by (cases s) auto
  have nofire: "\<not> g hist c cs"
  proof
    assume "g hist c cs"
    with Cons.prems(2) s have "BSL = p" by simp
    with Cons.prems(1) show False by simp
  qed
  with Cons.prems(2) s have c: "c = p" and tl: "ins g (c # hist) cs = pre @ rest'"
    by auto
  from Cons.prems(1) have "BSL \<notin> set pre" by simp
  from Cons.IH [OF this tl] obtain rest where
    r: "cs = pre @ rest" "rest' = ins g (rev pre @ c # hist) rest"
       "\<forall>p1 x p2. pre = p1 @ x # p2 \<longrightarrow> \<not> g (rev p1 @ c # hist) x (p2 @ rest)"
    by blast
  have "\<forall>p1 x p2. p # pre = p1 @ x # p2 \<longrightarrow> \<not> g (rev p1 @ hist) x (p2 @ rest)"
  proof (intro allI impI)
    fix p1 x p2 assume e: "p # pre = p1 @ x # p2"
    show "\<not> g (rev p1 @ hist) x (p2 @ rest)"
    proof (cases p1)
      case Nil
      with e have "x = p" "p2 = pre" by simp_all
      with nofire c r(1) Nil show ?thesis by simp
    next
      case (Cons q p1')
      with e have "q = p" "pre = p1' @ x # p2" by simp_all
      with r(3) have "\<not> g (rev p1' @ c # hist) x (p2 @ rest)" by blast
      with Cons \<open>q = p\<close> c show ?thesis by simp
    qed
  qed
  with r(1,2) s c show ?case by simp
qed

lemma word_ends_ins:
  assumes "\<And>c cs. \<not> g hist c cs"
  shows "word_ends (ins g hist s) = word_ends s"
  using assms by (cases s) (simp_all add: word_ends_def)

lemma hits_cons_ins:
  assumes K: "suit_window K" and G: "not_after_suit g"
    and hit: "hits K (c # ins g (c # hist) cs)"
  shows "\<exists>pre rest. cs = pre @ rest \<and> K (c # pre) \<and> word_ends rest
           \<and> (\<forall>p1 x p2. pre = p1 @ x # p2 \<longrightarrow> \<not> g (rev p1 @ c # hist) x (p2 @ rest))"
proof -
  from hit obtain pre0 rest' where
    o: "c # ins g (c # hist) cs = pre0 @ rest'" "K pre0" "word_ends rest'"
    by (auto simp: hits_def)
  from K o(2) have p0: "pre0 \<noteq> []" "BSL \<notin> set pre0" "is_suit (last pre0)"
    by (simp_all add: suit_window_def)
  from p0(1) o(1) obtain pre where pre0: "pre0 = c # pre" by (cases pre0) auto
  with o(1) have tl: "ins g (c # hist) cs = pre @ rest'" by simp
  from p0(2) pre0 have "BSL \<notin> set pre" by simp
  from ins_prefix [OF this tl] obtain rest where
    r: "cs = pre @ rest" "rest' = ins g (rev pre @ c # hist) rest"
       "\<forall>p1 x p2. pre = p1 @ x # p2 \<longrightarrow> \<not> g (rev p1 @ c # hist) x (p2 @ rest)" by blast
  have e: "rev pre @ c # hist = last pre0 # rev (butlast pre0) @ hist"
    using pre0 by (cases pre rule: rev_cases) simp_all
  have "\<not> g (rev pre @ c # hist) x xs" for x xs
  proof
    assume "g (rev pre @ c # hist) x xs"
    then have "g (last pre0 # rev (butlast pre0) @ hist) x xs" by (simp only: e)
    with G have "\<not> is_suit (last pre0)" unfolding not_after_suit_def by blast
    with p0(3) show False by simp
  qed
  then have "word_ends rest' = word_ends rest"
    unfolding r(2) by (intro word_ends_ins) simp
  with o(3) have "word_ends rest" by simp
  with r(1,3) o(2) pre0 show ?thesis by blast
qed

lemma not_hits_BSL:
  assumes K: "suit_window K"
  shows "\<not> hits K (BSL # s)"
proof
  assume "hits K (BSL # s)"
  then obtain pre rest where o: "BSL # s = pre @ rest" "K pre" by (auto simp: hits_def)
  from K o(2) have "pre \<noteq> []" "BSL \<notin> set pre" by (simp_all add: suit_window_def)
  with o(1) show False by (cases pre) simp_all
qed

lemma clear_ins:
  assumes K: "suit_window K" and G: "not_after_suit g"
  shows "clear K s \<Longrightarrow> clear K (ins g hist s)"
proof (induction s arbitrary: hist)
  case Nil
  then show ?case by simp
next
  case (Cons c cs)
  from Cons.prems have nh: "\<not> hits K (c # cs)" and cl: "clear K cs" by simp_all
  have tail: "clear K (ins g (c # hist) cs)" using cl by (rule Cons.IH)
  have head: "\<not> hits K (c # ins g (c # hist) cs)"
  proof
    assume "hits K (c # ins g (c # hist) cs)"
    from hits_cons_ins [OF K G this] obtain pre rest where
      "cs = pre @ rest" "K (c # pre)" "word_ends rest" by blast
    then have "c # cs = (c # pre) @ rest \<and> K (c # pre) \<and> word_ends rest" by simp
    then have "hits K (c # cs)" unfolding hits_def by blast
    with nh show False ..
  qed
  show ?case
    using head tail not_hits_BSL [OF K] by simp
qed

lemma clear_ins_made:
  assumes K: "suit_window K" and G: "not_after_suit g" and C: "caught K g"
  shows "clear K (ins g hist s)"
proof (induction s arbitrary: hist)
  case Nil
  then show ?case by simp
next
  case (Cons c cs)
  have tail: "clear K (ins g (c # hist) cs)" by (rule Cons.IH)
  have head: "\<not> hits K (c # ins g (c # hist) cs)"
  proof
    assume "hits K (c # ins g (c # hist) cs)"
    from hits_cons_ins [OF K G this] obtain pre rest where
      pr: "cs = pre @ rest" "K (c # pre)" "word_ends rest"
          "\<forall>p1 x p2. pre = p1 @ x # p2 \<longrightarrow> \<not> g (rev p1 @ c # hist) x (p2 @ rest)" by blast
    from C pr(2,3) obtain p1 x p2 where
      "pre = p1 @ x # p2" "g (rev p1 @ c # hist) x (p2 @ rest)"
      unfolding caught_def by blast
    with pr(4) show False by blast
  qed
  show ?case
    using head tail not_hits_BSL [OF K] by simp
qed

lemma re_sub_clear:
  assumes m: "\<And>p s. m p s \<noteq> None \<Longrightarrow> hits K s"
  shows "clear K s \<Longrightarrow> re_sub m p s = s"
proof (induction s arbitrary: p)
  case Nil
  then show ?case by simp
next
  case (Cons c cs)
  from Cons.prems have "\<not> hits K (c # cs)" and cl: "clear K cs" by simp_all
  with m have "m p (c # cs) = None" by blast
  with Cons.IH [OF cl] show ?case by simp
qed

text \<open>Rule (d) as an insertion.\<close>

lemma ins_not_suit:
  "\<forall>c \<in> set w. \<not> is_suit c \<Longrightarrow> (\<And>hs x r. g hs x r \<Longrightarrow> is_suit x) \<Longrightarrow>
   ins g hist (w @ s) = w @ ins g (rev w @ hist) s"
proof (induction w arbitrary: hist)
  case Nil
  then show ?case by simp
next
  case (Cons a w)
  from Cons.prems have "\<not> g hist a (w @ s)" by auto
  moreover have "ins g (a # hist) (w @ s) = w @ ins g (rev w @ a # hist) s"
    using Cons.prems by (intro Cons.IH) simp_all
  ultimately show ?case by simp
qed

lemma keycard_not_suit: "\<forall>c \<in> set (py '' keycard''). \<not> is_suit c"
  by (simp add: py_def is_suit_def)

lemma for_not_suit: "\<forall>c \<in> set (py ''for ''). \<not> is_suit c"
  by (simp add: py_def is_suit_def)

lemma suit_keycard_ins:
  "re_sub suit_keycard (prev_of hist) s = ins g_keycard hist s"
proof (induction "length s" arbitrary: s hist rule: less_induct)
  case less
  show ?case
  proof (cases s)
    case Nil
    then show ?thesis by simp
  next
    case (Cons c cs)
    show ?thesis
    proof (cases "g_keycard hist c cs")
      case False
      then have "suit_keycard (prev_of hist) (c # cs) = None"
        by (simp add: suit_keycard_def g_keycard_def)
      moreover have "re_sub suit_keycard (prev_of (c # hist)) cs = ins g_keycard (c # hist) cs"
        using Cons by (intro less) simp
      ultimately show ?thesis using Cons False by simp
    next
      case True
      then have m: "suit_keycard (prev_of hist) (c # cs) = Some ([BSL, c] @ py '' keycard'', 8)"
        by (simp add: suit_keycard_def g_keycard_def)
      have len: "length (py '' keycard'') = 8" by (simp add: py_def)
      from True have "take (length (py '' keycard'')) cs = py '' keycard''"
        unfolding g_keycard_def startswith_def by blast
      then have tk: "take 8 cs = py '' keycard''" by (simp only: len)
      define rest where "rest = drop 8 cs"
      have cs: "cs = py '' keycard'' @ rest"
        using tk rest_def append_take_drop_id [of 8 cs] by simp
      have lst: "last (c # take 8 cs) = L1 CHR ''d''"
        by (simp add: tk) (simp add: py_def)
      have "re_sub suit_keycard (prev_of hist) (c # cs)
              = [BSL, c] @ py '' keycard'' @ re_sub suit_keycard (Some (L1 CHR ''d'')) rest"
        using m lst rest_def by simp
      moreover have "re_sub suit_keycard (Some (L1 CHR ''d'')) rest
               = ins g_keycard (rev (py '' keycard'') @ c # hist) rest"
      proof -
        have e: "rev (py '' keycard'') @ c # hist
                   = L1 CHR ''d'' # tl (rev (py '' keycard'')) @ c # hist"
          by (simp add: py_def)
        have "length rest < length s" using Cons cs by simp
        from less [OF this, of "L1 CHR ''d'' # tl (rev (py '' keycard'')) @ c # hist"]
        show ?thesis by (simp only: e prev_of.simps)
      qed
      moreover have "ins g_keycard (c # hist) (py '' keycard'' @ rest)
               = py '' keycard'' @ ins g_keycard (rev (py '' keycard'') @ c # hist) rest"
        by (rule ins_not_suit [OF keycard_not_suit]) (simp add: g_keycard_def)
      ultimately show ?thesis using Cons True cs by simp
    qed
  qed
qed

text \<open>Rules (b) and (c) as insertions.\<close>

lemma pair_ins:
  assumes m: "\<And>p s. m p s = (case s of r # su # rest \<Rightarrow>
                 if P r \<and> is_suit su \<and> word_ends rest then Some ([r, BSL, su], 1) else None
               | _ \<Rightarrow> None)"
    and g: "\<And>hist u rest. g hist u rest =
               (case hist of [] \<Rightarrow> False | h # _ \<Rightarrow> P h \<and> is_suit u \<and> word_ends rest)"
    and P: "\<And>c. P c \<Longrightarrow> \<not> is_suit c"
  shows "(case s of [] \<Rightarrow> True | c # cs \<Rightarrow> \<not> g hist c cs) \<Longrightarrow> re_sub m p s = ins g hist s"
proof (induction "length s" arbitrary: s hist p rule: less_induct)
  case less
  show ?case
  proof (cases s)
    case Nil
    then show ?thesis by simp
  next
    case (Cons c cs)
    with less.prems have nf: "\<not> g hist c cs" by simp
    show ?thesis
    proof (cases "m p (c # cs)")
      case None
      have "case cs of [] \<Rightarrow> True | x # xs \<Rightarrow> \<not> g (c # hist) x xs"
      proof (cases cs)
        case Nil
        then show ?thesis by simp
      next
        case (Cons x xs)
        with None have "\<not> (P c \<and> is_suit x \<and> word_ends xs)" by (simp add: m split: if_splits)
        with Cons show ?thesis by (simp add: g)
      qed
      then have "re_sub m (Some c) cs = ins g (c # hist) cs"
        using Cons by (intro less) simp_all
      with None nf Cons show ?thesis by simp
    next
      case (Some a)
      then obtain u rest where cs: "cs = u # rest" and c: "P c" "is_suit u" "word_ends rest"
        and a: "a = ([c, BSL, u], 1)"
        by (cases cs) (auto simp: m split: if_splits)
      have "case rest of [] \<Rightarrow> True | x # xs \<Rightarrow> \<not> g (u # c # hist) x xs"
        using P [of u] c(2) by (cases rest) (auto simp: g)
      then have "re_sub m (Some u) rest = ins g (u # c # hist) rest"
        using Cons cs by (intro less) simp_all
      moreover have "g (c # hist) u rest" using c by (simp add: g)
      ultimately show ?thesis using Some a nf Cons cs by simp
    qed
  qed
qed

lemma rank_not_suit: "is_rank c \<Longrightarrow> \<not> is_suit c"
  by (auto simp: is_rank_def is_suit_def)

lemma decimal_not_suit: "is_decimal c \<Longrightarrow> \<not> is_suit c"
  by (auto simp: is_decimal_def is_suit_def)

lemma rank_suit_ins: "re_sub rank_suit None s = ins g_rank [] s"
proof (rule pair_ins [where P = is_rank])
  show "rank_suit p s = (case s of r # su # rest \<Rightarrow>
          if is_rank r \<and> is_suit su \<and> word_ends rest then Some ([r, BSL, su], 1) else None
        | _ \<Rightarrow> None)" for p s
    by (simp add: rank_suit_def)
  show "g_rank hist u rest =
          (case hist of [] \<Rightarrow> False | h # _ \<Rightarrow> is_rank h \<and> is_suit u \<and> word_ends rest)"
    for hist u rest by (simp add: g_rank_def)
  show "is_rank c \<Longrightarrow> \<not> is_suit c" for c by (rule rank_not_suit)
  show "case s of [] \<Rightarrow> True | c # cs \<Rightarrow> \<not> g_rank [] c cs"
    by (cases s) (simp_all add: g_rank_def)
qed

lemma digit_suit_ins: "re_sub digit_suit None s = ins g_digit [] s"
proof (rule pair_ins [where P = is_decimal])
  show "digit_suit p s = (case s of r # su # rest \<Rightarrow>
          if is_decimal r \<and> is_suit su \<and> word_ends rest then Some ([r, BSL, su], 1) else None
        | _ \<Rightarrow> None)" for p s
    by (simp add: digit_suit_def)
  show "g_digit hist u rest =
          (case hist of [] \<Rightarrow> False | h # _ \<Rightarrow> is_decimal h \<and> is_suit u \<and> word_ends rest)"
    for hist u rest by (simp add: g_digit_def)
  show "is_decimal c \<Longrightarrow> \<not> is_suit c" for c by (rule decimal_not_suit)
  show "case s of [] \<Rightarrow> True | c # cs \<Rightarrow> \<not> g_digit [] c cs"
    by (cases s) (simp_all add: g_digit_def)
qed


text \<open>Rule (e) as an insertion.\<close>

lemma for_suit_Some:
  "for_suit p s \<noteq> None \<longleftrightarrow> (\<exists>u rest. s = py ''for '' @ u # rest \<and> is_suit u \<and> word_ends rest)"
proof
  assume a: "for_suit p s \<noteq> None"
  have len: "length (py ''for '') = 4" by (simp add: py_def)
  from a have "startswith s (py ''for '')" by (auto simp: for_suit_def split: if_splits)
  then have t: "take 4 s = py ''for ''" by (simp only: startswith_def len)
  from a obtain u rest where d: "drop 4 s = u # rest" "is_suit u" "word_ends rest"
    by (auto simp: for_suit_def split: if_splits list.splits)
  from t d(1) append_take_drop_id [of 4 s] have "s = py ''for '' @ u # rest" by simp
  with d show "\<exists>u rest. s = py ''for '' @ u # rest \<and> is_suit u \<and> word_ends rest" by blast
next
  assume "\<exists>u rest. s = py ''for '' @ u # rest \<and> is_suit u \<and> word_ends rest"
  then show "for_suit p s \<noteq> None"
    by (auto simp: for_suit_def startswith_def py_def)
qed

lemma for_suit_value:
  "is_suit u \<Longrightarrow> word_ends rest \<Longrightarrow>
   for_suit p (py ''for '' @ u # rest) = Some (py ''for '' @ [BSL, u], 4)"
  by (simp add: for_suit_def startswith_def py_def)

lemma for_suit_ins_aux:
  "(\<forall>pre x post. s = pre @ x # post \<and> length pre < 4 \<longrightarrow> \<not> g_for (rev pre @ hist) x post)
   \<Longrightarrow> re_sub for_suit p s = ins g_for hist s"
proof (induction "length s" arbitrary: s hist p rule: less_induct)
  case less
  show ?case
  proof (cases s)
    case Nil
    then show ?thesis by simp
  next
    case (Cons c cs)
    show ?thesis
    proof (cases "for_suit p s")
      case None
      from less.prems Cons have nf: "\<not> g_for hist c cs" by fastforce
      have safe: "\<forall>pre x post. cs = pre @ x # post \<and> length pre < 4
                    \<longrightarrow> \<not> g_for (rev pre @ c # hist) x post"
      proof (intro allI impI notI, elim conjE)
        fix pre x post
        assume e: "cs = pre @ x # post" and l: "length pre < 4"
          and g: "g_for (rev pre @ c # hist) x post"
        show False
        proof (cases "length pre < 3")
          case True
          from e Cons have "s = (c # pre) @ x # post" by simp
          moreover from True have "length (c # pre) < 4" by simp
          ultimately have "\<not> g_for (rev (c # pre) @ hist) x post" using less.prems by blast
          with g show False by simp
        next
          case False
          with l have l3: "length pre = 3" by simp
          then have "take 4 (rev pre @ c # hist) = rev (c # pre)" by simp
          with g have "rev (c # pre) = rev (py ''for '')" and x: "is_suit x" "word_ends post"
            by (simp_all add: g_for_def)
          then have "c # pre = py ''for ''" by (simp only: rev_is_rev_conv)
          with e Cons have "s = py ''for '' @ x # post" by simp
          with x have "for_suit p s \<noteq> None" by (simp only: for_suit_Some) blast
          with None show False by simp
        qed
      qed
      have "re_sub for_suit (Some c) cs = ins g_for (c # hist) cs"
        using Cons safe by (intro less) simp_all
      with None nf Cons show ?thesis by simp
    next
      case (Some a)
      then have "for_suit p s \<noteq> None" by simp
      then obtain u rest where s: "s = py ''for '' @ u # rest" and u: "is_suit u" "word_ends rest"
        by (auto simp only: for_suit_Some)
      have m: "for_suit p s = Some (py ''for '' @ [BSL, u], 4)"
        unfolding s using u by (rule for_suit_value)
      have cs: "c = L1 CHR ''f''" "cs = py ''or '' @ u # rest"
        using s Cons by (simp_all add: py_def)
      have lhs: "re_sub for_suit p s = py ''for '' @ [BSL, u] @ re_sub for_suit (Some u) rest"
        using m Cons cs by (simp add: py_def)
      have safe: "\<forall>pre x post. rest = pre @ x # post \<and> length pre < 4
                    \<longrightarrow> \<not> g_for (rev pre @ u # rev (py ''for '') @ hist) x post"
      proof (intro allI impI notI, elim conjE)
        fix pre x post
        assume l: "length pre < 4"
          and g: "g_for (rev pre @ u # rev (py ''for '') @ hist) x post"
        from g have t: "take 4 (rev pre @ u # rev (py ''for '') @ hist) = rev (py ''for '')"
          by (simp add: g_for_def)
        from u(1) have nu: "u \<noteq> L1 CHR ''f''" "u \<noteq> L1 CHR ''o''" "u \<noteq> L1 CHR ''r''"
          "u \<noteq> L1 CHR '' ''" by (auto simp: is_suit_def)
        consider "pre = []" | a where "pre = [a]" | a b where "pre = [a, b]"
          | a b d where "pre = [a, b, d]"
          using l by (cases pre; cases "tl pre"; cases "tl (tl pre)"; cases "tl (tl (tl pre))")
                     auto
        then show False
          using t nu by cases (simp_all add: py_def)
      qed
      have "re_sub for_suit (Some u) rest = ins g_for (u # rev (py ''for '') @ hist) rest"
        using s safe by (intro less) (simp_all add: py_def)
      moreover have "ins g_for hist (py ''for '' @ u # rest)
              = py ''for '' @ ins g_for (rev (py ''for '') @ hist) (u # rest)"
        by (rule ins_not_suit [OF for_not_suit]) (simp add: g_for_def)
      moreover have "g_for (rev (py ''for '') @ hist) u rest"
        using u by (simp add: g_for_def py_def)
      ultimately show ?thesis using lhs s by simp
    qed
  qed
qed

lemma for_suit_ins: "re_sub for_suit None s = ins g_for [] s"
proof (rule for_suit_ins_aux, intro allI impI notI, elim conjE)
  fix pre x post
  assume "length pre < 4" and "g_for (rev pre @ []) x post"
  then show False by (simp add: g_for_def py_def)
qed

text \<open>The rules and their windows.\<close>

lemma rank_suit_hits: "rank_suit p s \<noteq> None \<Longrightarrow> hits K_rank s"
proof -
  assume "rank_suit p s \<noteq> None"
  then obtain r u rest where "s = [r, u] @ rest" "is_rank r" "is_suit u" "word_ends rest"
    by (auto simp: rank_suit_def split: list.splits if_splits)
  then show ?thesis unfolding hits_def K_rank_def by blast
qed

lemma digit_suit_hits: "digit_suit p s \<noteq> None \<Longrightarrow> hits K_digit s"
proof -
  assume "digit_suit p s \<noteq> None"
  then obtain r u rest where "s = [r, u] @ rest" "is_decimal r" "is_suit u" "word_ends rest"
    by (auto simp: digit_suit_def split: list.splits if_splits)
  then show ?thesis unfolding hits_def K_digit_def by blast
qed

lemma for_suit_hits: "for_suit p s \<noteq> None \<Longrightarrow> hits K_for s"
proof -
  assume "for_suit p s \<noteq> None"
  then obtain u rest where "s = py ''for '' @ u # rest" "is_suit u" "word_ends rest"
    by (auto simp only: for_suit_Some)
  then have "s = (py ''for '' @ [u]) @ rest \<and> K_for (py ''for '' @ [u]) \<and> word_ends rest"
    by (simp add: K_for_def)
  then show ?thesis unfolding hits_def by blast
qed

lemma suit_not_BSL: "is_suit u \<Longrightarrow> u \<noteq> BSL"
  by (auto simp: is_suit_def BSL_def)

lemma count_char_not_BSL: "is_count_char c \<Longrightarrow> c \<noteq> BSL"
  by (auto simp: is_count_char_def is_decimal_def BSL_def)

lemma decimal_not_BSL: "is_decimal c \<Longrightarrow> c \<noteq> BSL"
  by (auto simp: is_decimal_def BSL_def)

lemma rank_not_BSL: "is_rank c \<Longrightarrow> c \<noteq> BSL"
  by (auto simp: is_rank_def BSL_def)

lemma window_count: "suit_window K_count"
proof -
  have "pre \<noteq> [] \<and> BSL \<notin> set pre \<and> is_suit (last pre)" if "K_count pre" for pre
  proof -
    from that obtain d run u where p: "pre = d # run @ [L1 CHR '' '', u]" "is_decimal d"
      "\<forall>c \<in> set run. is_count_char c" "is_suit u" by (auto simp: K_count_def)
    have "BSL \<notin> set run" using p(3) count_char_not_BSL by blast
    moreover have "BSL \<noteq> d" "BSL \<noteq> u" "BSL \<noteq> L1 CHR '' ''"
      using p(2,4) decimal_not_BSL suit_not_BSL by (auto simp: BSL_def)
    ultimately show ?thesis using p(1,4) by simp
  qed
  then show ?thesis unfolding suit_window_def by blast
qed

lemma window_rank: "suit_window K_rank"
  unfolding suit_window_def K_rank_def
  by (auto dest: suit_not_BSL rank_not_BSL)

lemma window_digit: "suit_window K_digit"
  unfolding suit_window_def K_digit_def
  by (auto dest: suit_not_BSL decimal_not_BSL)

lemma window_for: "suit_window K_for"
  unfolding suit_window_def K_for_def
  by (auto simp: py_def BSL_def dest: suit_not_BSL)

lemma after_rank: "not_after_suit g_rank"
  unfolding not_after_suit_def g_rank_def by (auto dest: rank_not_suit)

lemma after_digit: "not_after_suit g_digit"
  unfolding not_after_suit_def g_digit_def by (auto dest: decimal_not_suit)

lemma word_suit: "is_suit u \<Longrightarrow> is_word u"
  by (auto simp: is_suit_def is_word_def)

lemma after_keycard: "not_after_suit g_keycard"
  unfolding not_after_suit_def g_keycard_def word_starts_def by (auto dest: word_suit)

lemma after_for: "not_after_suit g_for"
  unfolding not_after_suit_def g_for_def by (auto simp: py_def is_suit_def)

lemma caught_rank: "caught K_rank g_rank"
proof -
  have "\<exists>p1 x p2. pre = p1 @ x # p2 \<and> g_rank (rev p1 @ c # hist) x (p2 @ rest)"
    if k: "K_rank (c # pre)" and w: "word_ends rest" for c pre hist rest
  proof -
    from k obtain u where "pre = [] @ u # []" "is_rank c" "is_suit u"
      by (auto simp: K_rank_def)
    moreover from this w have "g_rank (rev [] @ c # hist) u ([] @ rest)"
      by (simp add: g_rank_def)
    ultimately show ?thesis by blast
  qed
  then show ?thesis unfolding caught_def by blast
qed

lemma caught_digit: "caught K_digit g_digit"
proof -
  have "\<exists>p1 x p2. pre = p1 @ x # p2 \<and> g_digit (rev p1 @ c # hist) x (p2 @ rest)"
    if k: "K_digit (c # pre)" and w: "word_ends rest" for c pre hist rest
  proof -
    from k obtain u where "pre = [] @ u # []" "is_decimal c" "is_suit u"
      by (auto simp: K_digit_def)
    moreover from this w have "g_digit (rev [] @ c # hist) u ([] @ rest)"
      by (simp add: g_digit_def)
    ultimately show ?thesis by blast
  qed
  then show ?thesis unfolding caught_def by blast
qed

lemma caught_for: "caught K_for g_for"
proof -
  have "\<exists>p1 x p2. pre = p1 @ x # p2 \<and> g_for (rev p1 @ c # hist) x (p2 @ rest)"
    if k: "K_for (c # pre)" and w: "word_ends rest" for c pre hist rest
  proof -
    from k obtain u where e: "c # pre = py ''for '' @ [u]" and u: "is_suit u"
      by (auto simp: K_for_def)
    from e have c: "c = L1 CHR ''f''" and pre: "pre = py ''or '' @ u # []"
      by (simp_all add: py_def)
    have "g_for (rev (py ''or '') @ c # hist) u ([] @ rest)"
      using u w c by (simp add: g_for_def py_def)
    with pre show ?thesis by blast
  qed
  then show ?thesis unfolding caught_def by blast
qed


text \<open>Rule (a) matches nowhere in its own result.\<close>

lemma count_suit_iff:
  "count_suit p s \<noteq> None \<longleftrightarrow> (\<exists>d t. s = d # t \<and> is_decimal d \<and> count_tail t)"
  by (cases s)
     (auto simp: count_suit_def count_tail_def simp del: dropWhile_eq_Nil_conv
           split: list.splits if_splits)

lemma count_suit_None:
  assumes "\<not> (is_decimal d \<and> count_tail t)"
  shows "count_suit p (d # t) = None"
proof (rule ccontr)
  assume "count_suit p (d # t) \<noteq> None"
  then have "\<exists>d' t'. d # t = d' # t' \<and> is_decimal d' \<and> count_tail t'"
    by (simp only: count_suit_iff)
  with assms show False by simp
qed

lemma count_suit_SomeI: "is_decimal d \<Longrightarrow> count_tail t \<Longrightarrow> count_suit p (d # t) \<noteq> None"
  unfolding count_suit_iff by blast

lemma count_suit_SomeD:
  assumes "count_suit p (d # t) \<noteq> None"
  shows "is_decimal d \<and> count_tail t"
proof -
  from assms have "\<exists>d' t'. d # t = d' # t' \<and> is_decimal d' \<and> count_tail t'"
    by (simp only: count_suit_iff)
  then show ?thesis by simp
qed

lemma count_tail_skip: "is_count_char x \<Longrightarrow> count_tail (x # t) = count_tail t"
  by (simp add: count_tail_def)

lemma count_tail_stop:
  "\<not> is_count_char x \<Longrightarrow>
   count_tail (x # t) = (x = L1 CHR '' '' \<and> (\<exists>su rest. t = su # rest \<and> is_suit su \<and> word_ends rest))"
  by (cases t) (auto simp: count_tail_def)

lemma count_tail_run:
  "\<forall>c \<in> set run. is_count_char c \<Longrightarrow> count_tail (run @ t) = count_tail t"
  by (induction run) (simp_all add: count_tail_skip)

lemma space_not_count: "\<not> is_count_char (L1 CHR '' '')"
  by (simp add: is_count_char_def is_decimal_def)

lemma BSL_not_count: "\<not> is_count_char BSL"
  by (simp add: is_count_char_def is_decimal_def BSL_def)

lemma hits_count: "hits K_count s \<longleftrightarrow> (\<exists>d t. s = d # t \<and> is_decimal d \<and> count_tail t)"
proof
  assume "hits K_count s"
  then obtain d run u rest where s: "s = (d # run @ [L1 CHR '' '', u]) @ rest"
    and k: "is_decimal d" "\<forall>c \<in> set run. is_count_char c" "is_suit u" "word_ends rest"
    unfolding hits_def K_count_def by blast
  have "count_tail (run @ L1 CHR '' '' # u # rest)"
    using k by (simp add: count_tail_run count_tail_stop space_not_count)
  with s k(1) show "\<exists>d t. s = d # t \<and> is_decimal d \<and> count_tail t" by simp
next
  assume "\<exists>d t. s = d # t \<and> is_decimal d \<and> count_tail t"
  then obtain d t where s: "s = d # t" and d: "is_decimal d" and t: "count_tail t" by blast
  define run where "run = takeWhile is_count_char t"
  from t obtain su rest where dr: "dropWhile is_count_char t = L1 CHR '' '' # su # rest"
    and su: "is_suit su" "word_ends rest"
    by (auto simp: count_tail_def split: list.splits)
  have "t = run @ L1 CHR '' '' # su # rest"
    using takeWhile_dropWhile_id [of is_count_char t] dr run_def by simp
  with s have "s = (d # run @ [L1 CHR '' '', su]) @ rest" by simp
  moreover have "\<forall>c \<in> set run. is_count_char c"
    unfolding run_def by (auto dest: set_takeWhileD)
  then have "K_count (d # run @ [L1 CHR '' '', su])"
    using d su(1) unfolding K_count_def by blast
  ultimately show "hits K_count s" using su(2) unfolding hits_def by blast
qed

lemma count_suit_hits: "count_suit p s \<noteq> None \<Longrightarrow> hits K_count s"
  by (simp only: count_suit_iff hits_count)

lemma count_suit_head:
  "\<exists>out. re_sub count_suit p (c # cs) = c # out"
  by (cases "count_suit p (c # cs)")
     (auto simp: count_suit_def split: list.splits if_splits)

lemma count_suit_word_ends: "word_ends (re_sub count_suit p s) = word_ends s"
proof (cases s)
  case Nil
  then show ?thesis by simp
next
  case (Cons c cs)
  from count_suit_head [of p c cs] obtain out where "re_sub count_suit p (c # cs) = c # out" ..
  with Cons show ?thesis by (simp add: word_ends_def)
qed

lemma count_tail_re_sub:
  "\<not> count_tail t \<Longrightarrow> \<not> count_tail (re_sub count_suit q t)"
proof (induction t arbitrary: q)
  case Nil
  then show ?case by simp
next
  case (Cons x t)
  show ?case
  proof (cases "is_count_char x")
    case True
    with Cons.prems have nt: "\<not> count_tail t" by (simp add: count_tail_skip)
    then have "count_suit q (x # t) = None" by (intro count_suit_None) simp
    then have "re_sub count_suit q (x # t) = x # re_sub count_suit (Some x) t" by simp
    with Cons.IH [OF nt] True show ?thesis by (simp add: count_tail_skip)
  next
    case False
    then have "\<not> is_decimal x" by (simp add: is_count_char_def)
    then have "count_suit q (x # t) = None" by (intro count_suit_None) simp
    then have out: "re_sub count_suit q (x # t) = x # re_sub count_suit (Some x) t" by simp
    show ?thesis
    proof
      assume "count_tail (re_sub count_suit q (x # t))"
      with out False obtain su rest' where x: "x = L1 CHR '' ''"
        and r: "re_sub count_suit (Some x) t = su # rest'" "is_suit su" "word_ends rest'"
        by (auto simp: count_tail_stop)
      from r(1) obtain y r0 where t: "t = y # r0" by (cases t) auto
      have "count_suit (Some x) (y # r0) = None"
      proof (rule ccontr)
        assume "count_suit (Some x) (y # r0) \<noteq> None"
        then have "is_decimal y" using count_suit_SomeD by blast
        moreover from count_suit_head [of "Some x" y r0] r(1) t have "su = y" by auto
        ultimately show False using r(2) decimal_not_suit by blast
      qed
      with r(1) t have "su = y" "rest' = re_sub count_suit (Some y) r0" by auto
      with r(3) have "word_ends r0" by (simp add: count_suit_word_ends)
      with \<open>su = y\<close> r(2) t x False have "count_tail (x # t)" by (simp add: count_tail_stop)
      with Cons.prems show False ..
    qed
  qed
qed

lemma not_hits_count_run:
  assumes "\<forall>c \<in> set w. is_count_char c"
  shows "clear K_count (w @ BSL # z) = clear K_count z"
  using assms
proof (induction w)
  case Nil
  have "\<not> hits K_count (BSL # z)"
    by (simp add: hits_count is_decimal_def BSL_def)
  then show ?case by simp
next
  case (Cons a w)
  then have "\<forall>c \<in> set w. is_count_char c" by simp
  then have "\<not> count_tail (w @ BSL # z)"
    by (simp add: count_tail_run count_tail_stop BSL_not_count) (simp add: BSL_def)
  then have "\<not> hits K_count (a # w @ BSL # z)" by (simp add: hits_count)
  with Cons show ?case by simp
qed

lemma count_suit_clear: "clear K_count (re_sub count_suit p s)"
proof (induction "length s" arbitrary: s p rule: less_induct)
  case less
  show ?case
  proof (cases s)
    case Nil
    then show ?thesis by simp
  next
    case (Cons c cs)
    show ?thesis
    proof (cases "count_suit p (c # cs)")
      case None
      have tl: "clear K_count (re_sub count_suit (Some c) cs)"
        using Cons by (intro less) simp
      have "\<not> hits K_count (c # re_sub count_suit (Some c) cs)"
      proof
        assume "hits K_count (c # re_sub count_suit (Some c) cs)"
        then have d: "is_decimal c" and ct: "count_tail (re_sub count_suit (Some c) cs)"
          by (simp_all add: hits_count)
        from None d have "\<not> count_tail cs" using count_suit_SomeI [of c cs p] by blast
        from count_tail_re_sub [OF this] ct show False by blast
      qed
      with tl None Cons show ?thesis by simp
    next
      case (Some a)
      then have "count_suit p (c # cs) \<noteq> None" by simp
      then have d: "is_decimal c" and ct: "count_tail cs"
        using count_suit_SomeD by blast+
      define run where "run = takeWhile is_count_char cs"
      from ct obtain su rest where dr: "dropWhile is_count_char cs = L1 CHR '' '' # su # rest"
        and su: "is_suit su" "word_ends rest"
        by (auto simp: count_tail_def split: list.splits)
      have cs: "cs = run @ L1 CHR '' '' # su # rest"
        using takeWhile_dropWhile_id [of is_count_char cs] dr run_def by simp
      have a: "a = (c # run @ [BSL, su, L1 CHR ''s''], length run + 2)"
        using Some d dr su run_def by (simp add: count_suit_def)
      have dk: "drop (length run + 2) cs = rest" using cs by simp
      obtain q where out: "re_sub count_suit p (c # cs)
          = (c # run) @ BSL # su # L1 CHR ''s'' # re_sub count_suit q rest"
        using Some a dk by simp
      have run: "\<forall>x \<in> set (c # run). is_count_char x"
        using d unfolding run_def by (auto simp: is_count_char_def dest: set_takeWhileD)
      have tl: "clear K_count (re_sub count_suit q rest)"
        using Cons cs by (intro less) simp
      have "\<not> hits K_count (su # z)" for z
        using su(1) decimal_not_suit by (auto simp: hits_count)
      moreover have "\<not> hits K_count (L1 CHR ''s'' # z)" for z
        by (simp add: hits_count is_decimal_def)
      ultimately have "clear K_count (su # L1 CHR ''s'' # re_sub count_suit q rest)"
        using tl by simp
      then have "clear K_count ((c # run) @ BSL # su # L1 CHR ''s'' # re_sub count_suit q rest)"
        by (simp only: not_hits_count_run [OF run])
      with out Cons show ?thesis by simp
    qed
  qed
qed


text \<open>The five passes, and what each keeps clear.\<close>

lemma rank_suit_keeps:
  "suit_window K \<Longrightarrow> clear K s \<Longrightarrow> clear K (re_sub rank_suit None s)"
  by (simp only: rank_suit_ins clear_ins [OF _ after_rank])

lemma digit_suit_keeps:
  "suit_window K \<Longrightarrow> clear K s \<Longrightarrow> clear K (re_sub digit_suit None s)"
  by (simp only: digit_suit_ins clear_ins [OF _ after_digit])

lemma suit_keycard_keeps:
  "suit_window K \<Longrightarrow> clear K s \<Longrightarrow> clear K (re_sub suit_keycard None s)"
  using suit_keycard_ins [of "[]" s] clear_ins [OF _ after_keycard, of K s "[]"] by simp

lemma for_suit_keeps:
  "suit_window K \<Longrightarrow> clear K s \<Longrightarrow> clear K (re_sub for_suit None s)"
  by (simp only: for_suit_ins clear_ins [OF _ after_for])

lemma rank_suit_clear: "clear K_rank (re_sub rank_suit None s)"
  by (simp only: rank_suit_ins clear_ins_made [OF window_rank after_rank caught_rank])

lemma digit_suit_clear: "clear K_digit (re_sub digit_suit None s)"
  by (simp only: digit_suit_ins clear_ins_made [OF window_digit after_digit caught_digit])

lemma for_suit_clear: "clear K_for (re_sub for_suit None s)"
  by (simp only: for_suit_ins clear_ins_made [OF window_for after_for caught_for])

lemma escaped_clear:
  "clear K_count (add_suit_symbols t)" "clear K_rank (add_suit_symbols t)"
  "clear K_digit (add_suit_symbols t)" "clear K_for (add_suit_symbols t)"
  unfolding add_suit_symbols_def
  by (intro for_suit_keeps suit_keycard_keeps digit_suit_keeps rank_suit_keeps
        window_count window_rank window_digit count_suit_clear rank_suit_clear
        digit_suit_clear for_suit_clear)+

lemma second_pass:
  "add_suit_symbols (add_suit_symbols t) = re_sub suit_keycard None (add_suit_symbols t)"
proof -
  define f where "f = add_suit_symbols t"
  have a: "re_sub count_suit None f = f"
    unfolding f_def by (rule re_sub_clear [OF count_suit_hits escaped_clear(1)])
  have b: "re_sub rank_suit None f = f"
    unfolding f_def by (rule re_sub_clear [OF rank_suit_hits escaped_clear(2)])
  have c: "re_sub digit_suit None f = f"
    unfolding f_def by (rule re_sub_clear [OF digit_suit_hits escaped_clear(3)])
  have k: "clear K_for (re_sub suit_keycard None f)"
    unfolding f_def by (rule suit_keycard_keeps [OF window_for escaped_clear(4)])
  have e: "re_sub for_suit None (re_sub suit_keycard None f) = re_sub suit_keycard None f"
  proof (rule re_sub_clear [where K = K_for])
    show "for_suit p s \<noteq> None \<Longrightarrow> hits K_for s" for p s by (rule for_suit_hits)
    show "clear K_for (re_sub suit_keycard None f)" by (rule k)
  qed
  have "add_suit_symbols f = re_sub suit_keycard None f"
    unfolding add_suit_symbols_def [of f] by (simp only: a b c e)
  then show ?thesis by (simp only: f_def)
qed

lemma keycard_free_same: "keycard_free p s \<Longrightarrow> re_sub suit_keycard p s = s"
  by (induction s arbitrary: p) simp_all

lemma keycard_longer:
  "length s \<le> length (re_sub suit_keycard p s)
   \<and> (\<not> keycard_free p s \<longrightarrow> length s < length (re_sub suit_keycard p s))"
proof (induction "length s" arbitrary: s p rule: less_induct)
  case less
  show ?case
  proof (cases s)
    case Nil
    then show ?thesis by simp
  next
    case (Cons c cs)
    show ?thesis
    proof (cases "suit_keycard p (c # cs)")
      case None
      have "length cs \<le> length (re_sub suit_keycard (Some c) cs)
            \<and> (\<not> keycard_free (Some c) cs \<longrightarrow> length cs < length (re_sub suit_keycard (Some c) cs))"
        using Cons by (intro less) simp
      with None Cons show ?thesis by simp
    next
      case (Some a)
      then have a: "a = ([BSL, c] @ py '' keycard'', 8)"
        by (auto simp: suit_keycard_def split: if_splits)
      define q where "q = Some (last (c # take 8 cs))"
      have "length (drop 8 cs) \<le> length (re_sub suit_keycard q (drop 8 cs))"
        using Cons less [of "drop 8 cs" q] by simp
      moreover have "length (py '' keycard'') = 8" by (simp add: py_def)
      ultimately have "length (c # cs) < length (re_sub suit_keycard p (c # cs))"
        using Some a q_def by simp
      with Cons show ?thesis by simp
    qed
  qed
qed

lemma keycard_same_iff: "re_sub suit_keycard p s = s \<longleftrightarrow> keycard_free p s"
proof
  assume e: "re_sub suit_keycard p s = s"
  show "keycard_free p s"
  proof (rule ccontr)
    assume "\<not> keycard_free p s"
    with keycard_longer [of s p] have "length s < length (re_sub suit_keycard p s)" by blast
    with e show False by simp
  qed
qed (rule keycard_free_same)

section \<open>The expansion returns, with at least three tokens\<close>

lemma space_not_special:
  "is_space c \<Longrightarrow> c \<noteq> L1 CHR ''('' \<and> c \<noteq> L1 CHR '')'' \<and> c \<noteq> L1 CHR ''-'' \<and> c \<noteq> EnDash"
  by (auto simp: is_space_def)

lemma replace_from_spaces:
  "list_all is_space s \<Longrightarrow> \<exists>c \<in> set old. \<not> is_space c \<Longrightarrow> replace_from old new s = s"
proof (induction old new s rule: replace_from.induct)
  case (1 old new)
  then show ?case by simp
next
  case (2 old new c cs)
  have "take (length old) (c # cs) \<noteq> old"
  proof
    assume "take (length old) (c # cs) = old"
    then have "set old \<subseteq> set (c # cs)" by (metis set_take_subset)
    with 2(3,4) show False by (auto simp: list_all_iff)
  qed
  with 2 show ?case by simp
qed

lemma normalize_dashes_spaces: "list_all is_space s \<Longrightarrow> normalize_dashes s = s"
  unfolding normalize_dashes_def replace_def
  by (simp add: replace_from_spaces is_space_def)

lemma split_loop_spaces:
  "list_all is_space s \<Longrightarrow>
   split_loop els cur d s = (if cur @ s \<noteq> [] then els @ [cur @ s] else els)"
proof (induction s arbitrary: cur)
  case Nil
  then show ?case by simp
next
  case (Cons c s)
  have c: "c \<noteq> L1 CHR ''(''" "c \<noteq> L1 CHR '')''"
    using Cons.prems space_not_special [of c] by simp_all
  have "take 3 (c # s) \<noteq> py '' - ''"
  proof
    assume "take 3 (c # s) = py '' - ''"
    then have "L1 CHR ''-'' \<in> set (take 3 (c # s))" by (simp add: py_def)
    then have "L1 CHR ''-'' \<in> set (c # s)" by (meson in_set_takeD)
    with Cons.prems show False
      using space_not_special [of "L1 CHR ''-''"] by (auto simp: list_all_iff)
  qed
  with c Cons show ?case by simp
qed

lemma strip_spaces:
  assumes "list_all is_space s"
  shows "strip s = []"
proof -
  have h: "dropWhile is_space s = []" using assms by (induction s) simp_all
  show ?thesis by (simp only: strip_def lstrip_def rstrip_def h rev.simps dropWhile.simps)
qed

lemma expand_tokens_spaces:
  assumes "list_all is_space raw"
  shows "expand_tokens raw = [py ''Pass'', py ''Pass'', py ''Pass'']"
proof -
  have "emit_loop 0 (split_elements (normalize_dashes raw)) [] False = []"
    using assms
    by (simp add: normalize_dashes_spaces split_elements_def split_loop_spaces strip_spaces)
  then show ?thesis by (simp add: expand_tokens_def pad_passes_Nil)
qed

text \<open>
  C10. \<open>expand_auction\<close> returns on every raw auction string: the loops of the model are
  defined with their termination proofs and no step of the function can raise. The list
  it joins has at least three tokens, the last three of them passes, and for an empty or
  white-space-only raw auction the string returned is exactly \<open>Pass Pass Pass\<close>.
\<close>

theorem expand_auction_total:
  "3 \<le> length (expand_tokens raw)
   \<and> list_all is_pass (last3 (expand_tokens raw))
   \<and> expand_auction raw = join (py '' '') (expand_tokens raw)
   \<and> (list_all is_space raw \<longrightarrow> expand_auction raw = py ''Pass Pass Pass'')"
proof -
  have "list_all is_space raw \<Longrightarrow> expand_auction raw = py ''Pass Pass Pass''"
    by (simp add: expand_auction_def expand_tokens_spaces) (simp add: py_def)
  then show ?thesis
    by (simp add: expand_tokens_def pad_passes_length pad_passes_all expand_auction_def)
qed

theorem expand_auction_total_witness:
  "list_all is_space (py ''   '') \<and> expand_auction (py ''   '') = py ''Pass Pass Pass''"
proof -
  have h: "list_all is_space (py ''   '')" by (simp add: py_def is_space_def)
  with expand_auction_total [of "py ''   ''"] show ?thesis by blast
qed


section \<open>Rotation\<close>

lemma rotate_seat_cases:
  "rotate_seat [L1 CHR ''N''] = Inr [L1 CHR ''S'']" "rotate_seat [L1 CHR ''S''] = Inr [L1 CHR ''N'']"
  "rotate_seat [L1 CHR ''E''] = Inr [L1 CHR ''W'']" "rotate_seat [L1 CHR ''W''] = Inr [L1 CHR ''E'']"
  by (simp_all add: rotate_seat_def ROTATE_MAP_def py_def)

text \<open>
  C9. Rotation is an involution: rotating one of the seats N, E, S, W twice gives the seat
  back, and rotating twice a non-empty Deal tag value that starts with one of these
  letters gives the value back; a rotation changes the first character only.
\<close>

theorem rotation_involution:
  "(seat \<in> {py ''N'', py ''E'', py ''S'', py ''W''} \<longrightarrow>
      and_then (rotate_seat seat) rotate_seat = Inr seat)
   \<and> (d \<noteq> [] \<and> hd d \<in> {L1 CHR ''N'', L1 CHR ''E'', L1 CHR ''S'', L1 CHR ''W''} \<longrightarrow>
      (\<exists>p. rotate_deal_tag d = Inr (p # tl d) \<and> rotate_deal_tag (p # tl d) = Inr d)
      \<and> and_then (rotate_deal_tag d) rotate_deal_tag = Inr d)"
proof -
  have seat: "seat \<in> {py ''N'', py ''E'', py ''S'', py ''W''} \<Longrightarrow>
      and_then (rotate_seat seat) rotate_seat = Inr seat"
    by (auto simp: and_then_def rotate_seat_cases py_def)
  have deal: "(\<exists>p. rotate_deal_tag d = Inr (p # tl d) \<and> rotate_deal_tag (p # tl d) = Inr d)
      \<and> and_then (rotate_deal_tag d) rotate_deal_tag = Inr d"
    if "d \<noteq> []" "hd d \<in> {L1 CHR ''N'', L1 CHR ''E'', L1 CHR ''S'', L1 CHR ''W''}"
  proof -
    from that obtain c rest where d: "d = c # rest" by (cases d) auto
    with that(2) consider "c = L1 CHR ''N''" | "c = L1 CHR ''E''" | "c = L1 CHR ''S''" | "c = L1 CHR ''W''"
      by auto
    then show ?thesis
      by cases (simp_all add: d rotate_deal_tag_def and_then_def rotate_seat_cases)
  qed
  from seat deal show ?thesis by blast
qed

theorem rotation_involution_witness:
  "py ''S'' \<in> {py ''N'', py ''E'', py ''S'', py ''W''}
   \<and> and_then (rotate_seat (py ''S'')) rotate_seat = Inr (py ''S'')
   \<and> py ''E:AK.Q.J.T'' \<noteq> [] 
   \<and> hd (py ''E:AK.Q.J.T'') \<in> {L1 CHR ''N'', L1 CHR ''E'', L1 CHR ''S'', L1 CHR ''W''}
   \<and> rotate_deal_tag (py ''E:AK.Q.J.T'') = Inr (py ''W:AK.Q.J.T'')
   \<and> and_then (rotate_deal_tag (py ''E:AK.Q.J.T'')) rotate_deal_tag = Inr (py ''E:AK.Q.J.T'')"
proof -
  have h1: "py ''S'' \<in> {py ''N'', py ''E'', py ''S'', py ''W''}" by simp
  have h2: "py ''E:AK.Q.J.T'' \<noteq> []
     \<and> hd (py ''E:AK.Q.J.T'') \<in> {L1 CHR ''N'', L1 CHR ''E'', L1 CHR ''S'', L1 CHR ''W''}"
    by (simp add: py_def)
  have r: "rotate_deal_tag (py ''E:AK.Q.J.T'') = Inr (py ''W:AK.Q.J.T'')"
    by (simp add: py_def rotate_deal_tag_def rotate_seat_cases)
  from rotation_involution [of "py ''S''" "py ''E:AK.Q.J.T''"] h1 h2 r show ?thesis
    by blast
qed

section \<open>The end of an expansion and its own-side calls\<close>













section \<open>Expanding twice\<close>

text \<open>
  C3, as amended. The closing loop is idempotent: run on a token list it has closed, and so
  on the token list of any expansion, it adds no further pass and changes nothing.
\<close>

theorem closing_step_idempotent:
  "pad_passes (pad_passes out) = pad_passes out
   \<and> pad_passes (expand_tokens raw) = expand_tokens raw"
  by (simp add: pad_passes_fixed pad_passes_done expand_tokens_def)

theorem closing_step_idempotent_witness:
  "pad_passes (pad_passes [py ''1C'', py ''Pass (forced)'']) = [py ''1C'', py ''Pass (forced)'', py ''Pass'', py ''Pass'']
   \<and> pad_passes (expand_tokens (py ''1C - [P]'')) = [py ''1C'', py ''Pass'', py ''Pass'', py ''Pass'']"
proof -
  have a: "pad_passes [py ''1C'', py ''Pass (forced)''] = [py ''1C'', py ''Pass (forced)'', py ''Pass'', py ''Pass'']"
    by code_simp
  have b: "expand_tokens (py ''1C - [P]'') = [py ''1C'', py ''Pass'', py ''Pass'', py ''Pass'']"
    by code_simp
  from closing_step_idempotent [of "[py ''1C'', py ''Pass (forced)'']" "py ''1C - [P]''"] a b
  show ?thesis by simp
qed

text \<open>
  C3 as stated fails: \<open>expand_auction\<close> reads its own space-joined output as one
  element, which is not a pass, and closes it with three more passes.
\<close>

theorem reexpansion_counterexample:
  "expand_auction (py ''1C'') = py ''1C Pass Pass Pass''
   \<and> expand_auction (expand_auction (py ''1C'')) = py ''1C Pass Pass Pass Pass Pass Pass''
   \<and> expand_auction (expand_auction (py ''1C'')) \<noteq> expand_auction (py ''1C'')"
  by code_simp

section \<open>Splitting at depth zero only\<close>

lemma depth_after_replace_from:
  "L1 CHR ''('' \<notin> set old \<Longrightarrow> L1 CHR '')'' \<notin> set old \<Longrightarrow>
   L1 CHR ''('' \<notin> set new \<Longrightarrow> L1 CHR '')'' \<notin> set new \<Longrightarrow>
   depth_after d (replace_from old new s) = depth_after d s"
proof (induction old new s arbitrary: d rule: replace_from.induct)
  case (1 old new)
  then show ?case by simp
next
  case (2 old new c cs)
  show ?case
  proof (cases "old \<noteq> [] \<and> take (length old) (c # cs) = old")
    case True
    then have split: "c # cs = old @ drop (length old) (c # cs)"
      by (metis append_take_drop_id)
    have "depth_after d (c # cs) = depth_after d (old @ drop (length old) (c # cs))"
      using split by simp
    also have "\<dots> = depth_after d (drop (length old) (c # cs))"
      by (simp only: depth_after_append depth_after_plain [OF "2.prems"(1,2)] option.case)
    finally have l: "depth_after d (c # cs) = depth_after d (drop (length old) (c # cs))" .
    have r: "replace_from old new (c # cs) = new @ replace_from old new (drop (length old) (c # cs))"
      using True by simp
    have "depth_after d (new @ replace_from old new (drop (length old) (c # cs)))
        = depth_after d (replace_from old new (drop (length old) (c # cs)))"
      by (simp only: depth_after_append depth_after_plain [OF "2.prems"(3,4)] option.case)
    also have "\<dots> = depth_after d (drop (length old) (c # cs))"
      using True "2.prems" by (intro "2.IH"(1)) simp_all
    finally have "depth_after d (replace_from old new (c # cs))
        = depth_after d (drop (length old) (c # cs))"
      by (simp only: r)
    with l show ?thesis by (simp only:)
  next
    case False
    have ih: "depth_after e (replace_from old new cs) = depth_after e cs" for e
      using False "2.prems" by (intro "2.IH"(2)) simp_all
    have r: "replace_from old new (c # cs) = c # replace_from old new cs"
      using False by auto
    show ?thesis unfolding r by (simp add: ih)
  qed
qed

lemma balanced_normalize_dashes: "balanced (normalize_dashes raw) = balanced raw"
  by (simp add: balanced_def normalize_dashes_def replace_def depth_after_replace_from py_def)

lemma split_loop_balanced:
  "pd = int d \<Longrightarrow> depth_after 0 cur = Some d \<Longrightarrow> depth_after d s = Some 0 \<Longrightarrow>
   \<forall>e \<in> set els. balanced e \<Longrightarrow>
   \<forall>e \<in> set (split_loop els cur pd s). balanced e"
proof (induction els cur pd s arbitrary: d rule: split_loop.induct)
  case (1 elements current paren_depth)
  then show ?case by (simp add: balanced_def)
next
  case (2 elements current paren_depth ch rest)
  consider (opn) "ch = L1 CHR ''(''"
    | (cls) "ch \<noteq> L1 CHR ''(''" "ch = L1 CHR '')''"
    | (sep) "ch \<noteq> L1 CHR ''(''" "ch \<noteq> L1 CHR '')''"
            "paren_depth = 0 \<and> take 3 (ch # rest) = py '' - ''"
    | (oth) "ch \<noteq> L1 CHR ''(''" "ch \<noteq> L1 CHR '')''"
            "\<not> (paren_depth = 0 \<and> take 3 (ch # rest) = py '' - '')"
    by blast
  then show ?case
  proof cases
    case opn
    have "\<forall>e \<in> set (split_loop elements (current @ [ch]) (paren_depth + 1) rest). balanced e"
      using opn "2.prems" by (intro "2.IH"(1) [where d = "Suc d"]) (simp_all add: depth_after_append)
    with opn show ?thesis by simp
  next
    case cls
    with "2.prems"(3) have pos: "d \<noteq> 0" by (auto split: if_splits)
    have "\<forall>e \<in> set (split_loop elements (current @ [ch]) (paren_depth - 1) rest). balanced e"
      using cls pos "2.prems" by (intro "2.IH"(2) [where d = "d - 1"]) (simp_all add: depth_after_append)
    with cls show ?thesis by simp
  next
    case sep
    with "2.prems"(1) have d0: "d = 0" by simp
    define tl3 where "tl3 = drop 3 (ch # rest)"
    have whole: "ch # rest = py '' - '' @ tl3"
      using sep(3) unfolding tl3_def by (metis append_take_drop_id)
    have "depth_after 0 (ch # rest) = Some 0"
      using "2.prems"(3) unfolding d0 .
    then have "depth_after 0 (py '' - '' @ tl3) = Some 0"
      unfolding whole .
    then have "depth_after 0 tl3 = Some 0"
      by (simp add: depth_after_append py_def)
    then have rest: "depth_after 0 (drop 3 (ch # rest)) = Some 0"
      unfolding tl3_def .
    have "\<forall>e \<in> set (split_loop (elements @ [current]) [] paren_depth (drop 3 (ch # rest))). balanced e"
      using sep d0 "2.prems" rest
      by (intro "2.IH"(3) [where d = 0]) (simp_all add: balanced_def)
    with sep show ?thesis by simp
  next
    case oth
    have "\<forall>e \<in> set (split_loop elements (current @ [ch]) paren_depth rest). balanced e"
      using oth "2.prems" by (intro "2.IH"(4) [where d = d]) (simp_all add: depth_after_append)
    with oth show ?thesis by auto
  qed
qed

lemma split_loop_inside:
  "depth_after k g = Some e \<Longrightarrow> 0 < pd \<Longrightarrow>
   split_loop els cur (pd + int k) (g @ rest) = split_loop els (cur @ g) (pd + int e) rest"
proof (induction g arbitrary: k cur)
  case Nil
  then show ?case by simp
next
  case (Cons c g)
  show ?case
  proof (cases "c = L1 CHR ''(''")
    case True
    with Cons.prems have "depth_after (Suc k) g = Some e" by simp
    from Cons.IH [OF this Cons.prems(2), of "cur @ [c]"] True show ?thesis
      by (simp add: algebra_simps)
  next
    case False
    show ?thesis
    proof (cases "c = L1 CHR '')''")
      case True
      with Cons.prems have k: "k \<noteq> 0" "depth_after (k - 1) g = Some e"
        by (auto split: if_splits)
      from Cons.IH [OF k(2) Cons.prems(2), of "cur @ [c]"] True k(1) show ?thesis
        by (simp add: algebra_simps of_nat_diff)
    next
      case nc: False
      with False Cons.prems have "depth_after k g = Some e" by simp
      from Cons.IH [OF this Cons.prems(2), of "cur @ [c]"] False nc Cons.prems(2) show ?thesis
        by simp
    qed
  qed
qed

lemma split_loop_span:
  assumes "balanced g"
  shows "split_loop els cur 0 (L1 CHR ''('' # g @ L1 CHR '')'' # rest)
         = split_loop els (cur @ L1 CHR ''('' # g @ [L1 CHR '')'']) 0 rest"
proof -
  have "split_loop els (cur @ [L1 CHR ''('']) (1 + int 0) (g @ L1 CHR '')'' # rest)
        = split_loop els ((cur @ [L1 CHR ''('']) @ g) (1 + int 0) (L1 CHR '')'' # rest)"
    using assms by (intro split_loop_inside) (simp_all add: balanced_def)
  then show ?thesis by simp
qed

text \<open>
  C6. The splitter splits at a separator only at parenthesis depth zero. For a raw
  auction with balanced parentheses every element it returns is balanced, so no split
  falls inside a parenthesised span; a parenthesised span with balanced content is copied
  into the current element whole, whatever separators it holds; and
  \<open>1C (shows 4+ - or more C) - Pass\<close> gives exactly two elements.
\<close>

theorem split_only_at_depth_zero:
  "(balanced raw \<longrightarrow> (\<forall>e \<in> set (split_elements (normalize_dashes raw)). balanced e))
   \<and> (balanced g \<longrightarrow>
        split_loop els cur 0 (L1 CHR ''('' # g @ L1 CHR '')'' # rest)
         = split_loop els (cur @ L1 CHR ''('' # g @ [L1 CHR '')'']) 0 rest)
   \<and> split_elements (normalize_dashes (py ''1C (shows 4+ - or more C) - Pass''))
       = [py ''1C (shows 4+ - or more C)'', py ''Pass'']"
proof -
  have a: "\<forall>e \<in> set (split_elements (normalize_dashes raw)). balanced e" if "balanced raw"
    unfolding split_elements_def
    using that by (intro split_loop_balanced [where d = 0])
      (simp_all add: balanced_normalize_dashes [unfolded balanced_def] balanced_def)
  have c: "split_elements (normalize_dashes (py ''1C (shows 4+ - or more C) - Pass''))
       = [py ''1C (shows 4+ - or more C)'', py ''Pass'']"
    by code_simp
  from a c split_loop_span show ?thesis by blast
qed

theorem split_only_at_depth_zero_witness:
  "balanced (py ''1C (shows 4+ - or more C) - Pass'')
   \<and> balanced (py ''shows 4+ - or more C'')
   \<and> list_all balanced (split_elements (normalize_dashes (py ''1C (shows 4+ - or more C) - Pass'')))
   \<and> split_loop [] (py ''1C '') 0 (py ''(shows 4+ - or more C) - Pass'')
      = split_loop [] (py ''1C (shows 4+ - or more C)'') 0 (py '' - Pass'')"
proof -
  have b1: "balanced (py ''1C (shows 4+ - or more C) - Pass'')" by code_simp
  have b2: "balanced (py ''shows 4+ - or more C'')" by code_simp
  have e1: "py ''(shows 4+ - or more C) - Pass''
      = L1 CHR ''('' # py ''shows 4+ - or more C'' @ L1 CHR '')'' # py '' - Pass''"
    by (simp add: py_def)
  have e2: "py ''1C (shows 4+ - or more C)''
      = py ''1C '' @ L1 CHR ''('' # py ''shows 4+ - or more C'' @ [L1 CHR '')'']"
    by (simp add: py_def)
  from split_only_at_depth_zero [of "py ''1C (shows 4+ - or more C) - Pass''"
      "py ''shows 4+ - or more C''" "[]" "py ''1C ''" "py '' - Pass''"] b1 b2
  show ?thesis by (simp add: list_all_iff e1 e2)
qed

section \<open>Footnote extraction keeps nesting\<close>

lemma scan_close_inside:
  "depth_after k g = Some e \<Longrightarrow>
   scan_close (Suc d + k) seen (g @ rest) = scan_close (Suc d + e) (seen @ g) rest"
proof (induction g arbitrary: k seen)
  case Nil
  then show ?case by simp
next
  case (Cons c g)
  show ?case
  proof (cases "c = L1 CHR ''(''")
    case True
    with Cons.prems have "depth_after (Suc k) g = Some e" by simp
    from Cons.IH [OF this, of "seen @ [c]"] True show ?thesis by simp
  next
    case False
    show ?thesis
    proof (cases "c = L1 CHR '')''")
      case True
      with Cons.prems have k: "k \<noteq> 0" "depth_after (k - 1) g = Some e"
        by (auto split: if_splits)
      then have "Suc d + k - 1 = Suc d + (k - 1)" by simp
      with Cons.IH [OF k(2), of "seen @ [c]"] True show ?thesis by simp
    next
      case nc: False
      with False Cons.prems have "depth_after k g = Some e" by simp
      from Cons.IH [OF this, of "seen @ [c]"] False nc show ?thesis by simp
    qed
  qed
qed

lemma scan_close_group:
  assumes "balanced g"
  shows "scan_close (Suc 0) [] (g @ L1 CHR '')'' # rest) = (g @ [L1 CHR '')''], rest)"
proof -
  have "scan_close (Suc 0 + 0) [] (g @ L1 CHR '')'' # rest)
        = scan_close (Suc 0 + 0) ([] @ g) (L1 CHR '')'' # rest)"
    using assms by (intro scan_close_inside) (simp add: balanced_def)
  then show ?thesis by (cases rest) simp_all
qed

lemma extract_loop_plain:
  "plain t \<Longrightarrow> extract_loop result nts n (t @ s) = extract_loop (result @ t) nts n s"
  by (induction t arbitrary: result) (auto simp: plain_def)

lemma rstrip_append:
  assumes "result = [] \<or> \<not> is_space (last result)"
  shows "rstrip (result @ t) = result @ rstrip t"
proof (cases "\<forall>c \<in> set t. is_space c")
  case True
  then have t: "dropWhile is_space (rev t) = []" by simp
  have "dropWhile is_space (rev t @ rev result) = dropWhile is_space (rev result)"
    using True by (intro dropWhile_append2) simp
  moreover have "dropWhile is_space (rev result) = rev result"
    using assms by (cases result rule: rev_cases) simp_all
  ultimately show ?thesis by (simp add: rstrip_def t)
next
  case False
  then obtain c where "c \<in> set (rev t)" "\<not> is_space c" by auto
  then have "dropWhile is_space (rev t @ rev result) = dropWhile is_space (rev t) @ rev result"
    by (intro dropWhile_append1)
  then show ?thesis by (simp add: rstrip_def)
qed

lemma flag_last: "flag n \<noteq> [] \<and> \<not> is_space (last (flag n))"
  by (simp add: flag_def py_def is_space_def)

lemma extract_loop_render:
  "list_all (\<lambda>(t, g). plain t \<and> balanced g) segs \<Longrightarrow> plain tail \<Longrightarrow>
   result = [] \<or> \<not> is_space (last result) \<Longrightarrow>
   extract_loop result nts n (render segs tail)
     = (result @ marked n segs tail, nts @ numbered n segs)"
proof (induction segs arbitrary: result nts n)
  case Nil
  have "extract_loop result nts n (tail @ []) = extract_loop (result @ tail) nts n []"
    using Nil.prems(2) by (rule extract_loop_plain)
  then show ?case by simp
next
  case (Cons seg segs)
  obtain t g where seg: "seg = (t, g)" by (cases seg)
  with Cons.prems have t: "plain t" and g: "balanced g"
    and rest: "list_all (\<lambda>(t, g). plain t \<and> balanced g) segs" by simp_all
  let ?result = "rstrip (result @ t) @ flag (Suc n)"
  have good: "?result = [] \<or> \<not> is_space (last ?result)"
    using flag_last [of "Suc n"] by simp
  have "extract_loop result nts n (render (seg # segs) tail)
        = extract_loop (result @ t) nts n (L1 CHR ''('' # g @ L1 CHR '')'' # render segs tail)"
    using extract_loop_plain [OF t, of result nts n] by (simp add: seg)
  also have "\<dots> = extract_loop ?result (nts @ [note_entry (Suc n) g]) (Suc n) (render segs tail)"
    by (simp add: scan_close_group [OF g])
  also have "\<dots> = (?result @ marked (Suc n) segs tail,
                   (nts @ [note_entry (Suc n) g]) @ numbered (Suc n) segs)"
    using rest Cons.prems(2) good by (rule Cons.IH)
  finally show ?case
    by (simp add: seg rstrip_append [OF Cons.prems(3)])
qed

lemma depth_after_shift:
  "depth_after k g = Some e \<Longrightarrow> depth_after (k + m) g = Some (e + m)"
proof (induction g arbitrary: k)
  case Nil
  then show ?case by simp
next
  case (Cons c g)
  show ?case
  proof (cases "c = L1 CHR ''(''")
    case True
    with Cons.prems have "depth_after (Suc k) g = Some e" by simp
    from Cons.IH [OF this] True show ?thesis by simp
  next
    case False
    show ?thesis
    proof (cases "c = L1 CHR '')''")
      case True
      with Cons.prems have k: "k \<noteq> 0" "depth_after (k - 1) g = Some e"
        by (auto split: if_splits)
      from k(1) have "k + m - 1 = k - 1 + m" by simp
      with Cons.IH [OF k(2)] True k(1) show ?thesis by simp
    next
      case nc: False
      with False Cons.prems have "depth_after k g = Some e" by simp
      from Cons.IH [OF this] False nc show ?thesis by simp
    qed
  qed
qed

lemma matching_close:
  "depth_after (Suc d) s = Some e \<Longrightarrow> e \<le> d \<Longrightarrow>
   \<exists>g r. s = g @ L1 CHR '')'' # r \<and> balanced g \<and> depth_after d r = Some e"
proof (induction "length s" arbitrary: s d rule: less_induct)
  case less
  show ?case
  proof (cases s)
    case Nil
    with less.prems show ?thesis by simp
  next
    case (Cons c cs)
    show ?thesis
    proof (cases "c = L1 CHR ''(''")
      case True
      with Cons less.prems have 1: "depth_after (Suc (Suc d)) cs = Some e" "e \<le> Suc d" by simp_all
      have "length cs < length s" using Cons by simp
      from less.hyps [OF this 1] obtain g1 r1 where
        g1: "cs = g1 @ L1 CHR '')'' # r1" "balanced g1" "depth_after (Suc d) r1 = Some e"
        by blast
      have "length r1 < length s" using Cons g1(1) by simp
      from less.hyps [OF this g1(3) less.prems(2)] obtain g2 r2 where
        g2: "r1 = g2 @ L1 CHR '')'' # r2" "balanced g2" "depth_after d r2 = Some e"
        by blast
      have "depth_after (0 + 1) g1 = Some (0 + 1)"
        using g1(2) unfolding balanced_def by (rule depth_after_shift)
      then have "balanced (L1 CHR ''('' # g1 @ L1 CHR '')'' # g2)"
        using g2(2) by (simp add: balanced_def depth_after_append)
      moreover have "s = (L1 CHR ''('' # g1 @ L1 CHR '')'' # g2) @ L1 CHR '')'' # r2"
        using Cons True g1(1) g2(1) by simp
      ultimately show ?thesis using g2(3) by blast
    next
      case False
      show ?thesis
      proof (cases "c = L1 CHR '')''")
        case True
        with Cons less.prems have "depth_after d cs = Some e" by simp
        moreover have "s = [] @ L1 CHR '')'' # cs" using Cons True by simp
        moreover have "balanced []" by (simp add: balanced_def)
        ultimately show ?thesis by blast
      next
        case nc: False
        with False Cons less.prems have 1: "depth_after (Suc d) cs = Some e" by simp
        have "length cs < length s" using Cons by simp
        from less.hyps [OF this 1 less.prems(2)] obtain g1 r1 where
          g1: "cs = g1 @ L1 CHR '')'' # r1" "balanced g1" "depth_after d r1 = Some e"
          by blast
        have "balanced (c # g1)" using g1(2) False nc by (simp add: balanced_def)
        moreover have "s = (c # g1) @ L1 CHR '')'' # r1" using Cons g1(1) by simp
        ultimately show ?thesis using g1(3) by blast
      qed
    qed
  qed
qed

lemma depth_after_no_open:
  "L1 CHR ''('' \<notin> set t \<Longrightarrow> depth_after d t = Some e \<Longrightarrow> e \<le> d"
proof (induction t arbitrary: d)
  case Nil
  then show ?case by simp
next
  case (Cons c t)
  show ?case
  proof (cases "c = L1 CHR '')''")
    case True
    with Cons.prems have "d \<noteq> 0" "depth_after (d - 1) t = Some e" by (auto split: if_splits)
    with Cons.IH [of "d - 1"] Cons.prems(1) show ?thesis by simp
  next
    case False
    with Cons.prems have "depth_after d t = Some e" by auto
    with Cons.IH [of d] Cons.prems(1) show ?thesis by simp
  qed
qed

lemma balanced_grouping:
  "balanced s \<Longrightarrow> \<exists>segs tail. s = render segs tail \<and> well_grouped segs tail"
proof (induction "length s" arbitrary: s rule: less_induct)
  case less
  define t where "t = takeWhile (\<lambda>c. c \<noteq> L1 CHR ''('') s"
  define r where "r = dropWhile (\<lambda>c. c \<noteq> L1 CHR ''('') s"
  have s: "s = t @ r" by (simp add: t_def r_def)
  have pt: "plain t" by (auto simp: plain_def t_def dest: set_takeWhileD)
  have hd: "r \<noteq> [] \<Longrightarrow> hd r = L1 CHR ''(''"
    using hd_dropWhile [of "\<lambda>c. c \<noteq> L1 CHR ''(''" s] by (simp add: r_def)
  show ?case
  proof (cases r)
    case Nil
    with s have "s = render [] t" by simp
    moreover have "well_grouped [] t" using pt by (simp add: well_grouped_def)
    ultimately show ?thesis by blast
  next
    case (Cons c r1)
    with hd have c: "c = L1 CHR ''(''" by simp
    from less.prems s have "depth_after 0 (t @ r) = Some 0" by (simp add: balanced_def)
    then obtain d0 where d0: "depth_after 0 t = Some d0" "depth_after d0 r = Some 0"
      by (auto simp: depth_after_append split: option.splits)
    from pt d0(1) have "d0 = 0" using depth_after_no_open [of t 0 d0] by (simp add: plain_def)
    with d0(2) Cons c have "depth_after (Suc 0) r1 = Some 0" by simp
    from matching_close [OF this] obtain g r2 where
      g: "r1 = g @ L1 CHR '')'' # r2" "balanced g" "depth_after 0 r2 = Some 0" by blast
    have eq: "s = t @ L1 CHR ''('' # g @ L1 CHR '')'' # r2"
      by (simp add: s Cons c g(1))
    then have "length r2 < length s" by simp
    moreover have "balanced r2" using g(3) by (simp add: balanced_def)
    ultimately obtain segs tail where st: "r2 = render segs tail" "well_grouped segs tail"
      using less.hyps by blast
    have "s = render ((t, g) # segs) tail" using eq st(1) by simp
    moreover have "well_grouped ((t, g) # segs) tail"
      using st(2) pt g(2) by (simp add: well_grouped_def)
    ultimately show ?thesis by blast
  qed
qed

text \<open>
  C5. Footnote extraction keeps nesting. Every auction text with balanced parentheses is
  made of plain stretches and parenthesised groups with balanced content; for such a text
  the Nth group, nested parentheses and all, becomes the footnote \<open>N:text\<close>, \<open>N\<close>
  counting from one in every call, and in the cleaned text the group and the white space
  right before it give way to a space and the marker \<open>=N=\<close> (repeated spaces are then
  collapsed and the ends stripped). In particular \<open>2C (shows (at least) 4+ clubs)\<close>
  gives \<open>2C =1=\<close> and the footnote \<open>1:shows (at least) 4+ clubs\<close>.
\<close>

theorem extraction_keeps_nesting:
  "(balanced auction \<longrightarrow> (\<exists>segs tail. auction = render segs tail \<and> well_grouped segs tail))
   \<and> (well_grouped segs tail \<longrightarrow>
        extract_notes_list (render segs tail)
          = (strip (collapse_spaces (marked 0 segs tail)), numbered 0 segs)
        \<and> extract_bid_notes (render segs tail)
          = (strip (collapse_spaces (marked 0 segs tail)), join (py ''|'') (numbered 0 segs)))
   \<and> extract_bid_notes (py ''2C (shows (at least) 4+ clubs)'')
        = (py ''2C =1='', py ''1:shows (at least) 4+ clubs'')"
proof -
  have a: "extract_notes_list (render segs tail)
           = (strip (collapse_spaces (marked 0 segs tail)), numbered 0 segs)"
    if "well_grouped segs tail"
  proof -
    have "extract_loop [] [] 0 (render segs tail)
          = ([] @ marked 0 segs tail, [] @ numbered 0 segs)"
      using that by (intro extract_loop_render) (simp_all add: well_grouped_def)
    then show ?thesis by (simp add: extract_notes_list_def)
  qed
  have c: "extract_bid_notes (py ''2C (shows (at least) 4+ clubs)'')
           = (py ''2C =1='', py ''1:shows (at least) 4+ clubs'')"
    by code_simp
  from a c balanced_grouping [of auction] show ?thesis
    by (simp add: extract_bid_notes_def)
qed

theorem extraction_keeps_nesting_witness:
  "balanced (py ''2C (shows (at least) 4+ clubs) Pass(forced) Pass'')
   \<and> well_grouped [(py ''2C '', py ''shows (at least) 4+ clubs''), (py '' Pass'', py ''forced'')] (py '' Pass'')
   \<and> render [(py ''2C '', py ''shows (at least) 4+ clubs''), (py '' Pass'', py ''forced'')] (py '' Pass'')
      = py ''2C (shows (at least) 4+ clubs) Pass(forced) Pass''
   \<and> extract_bid_notes (py ''2C (shows (at least) 4+ clubs) Pass(forced) Pass'')
      = (py ''2C =1= Pass =2= Pass'', py ''1:shows (at least) 4+ clubs|2:forced'')"
proof -
  let ?segs = "[(py ''2C '', py ''shows (at least) 4+ clubs''), (py '' Pass'', py ''forced'')]"
  have b: "balanced (py ''2C (shows (at least) 4+ clubs) Pass(forced) Pass'')" by code_simp
  have w: "well_grouped ?segs (py '' Pass'')" by code_simp
  have r: "render ?segs (py '' Pass'') = py ''2C (shows (at least) 4+ clubs) Pass(forced) Pass''"
    by code_simp
  have m: "strip (collapse_spaces (marked 0 ?segs (py '' Pass''))) = py ''2C =1= Pass =2= Pass''"
    by code_simp
  have n: "join (py ''|'') (numbered 0 ?segs) = py ''1:shows (at least) 4+ clubs|2:forced''"
    by code_simp
  from extraction_keeps_nesting [of "py ''2C (shows (at least) 4+ clubs) Pass(forced) Pass''"
      ?segs "py '' Pass''"] w
  have "extract_bid_notes (render ?segs (py '' Pass''))
          = (strip (collapse_spaces (marked 0 ?segs (py '' Pass''))), join (py ''|'') (numbered 0 ?segs))"
    by blast
  then show ?thesis unfolding r m n using b w by simp
qed

section \<open>The scenario of deal 3\<close>

text \<open>
  C2 as stated fails twice: the opponent's bracketed pass stands between the two own-side
  calls, so no pass is inserted and the expansion has one pass after \<open>1C\<close>, not two;
  and no rule of the suit-symbol escaping matches \<open>4+ diamonds\<close>, whose \<open>d\<close> is
  neither a capital suit letter nor the end of a word.
\<close>

theorem scenario_three_counterexample:
  "expand_auction (py ''1C - [P] - 1D(shows 4+ diamonds) - all pass'')
     \<noteq> py ''1C Pass Pass 1D(shows 4+ diamonds) Pass Pass Pass''
   \<and> add_suit_symbols (py ''shows 4+ diamonds'') \<noteq> py ''shows 4+'' @ [BSL] @ py ''Ds diamonds''"
  by code_simp

text \<open>
  C2, as amended. The raw auction expands to
  \<open>1C Pass 1D(shows 4+ diamonds) Pass Pass Pass\<close>; extraction gives the cleaned auction
  \<open>1C Pass 1D =1= Pass Pass Pass\<close> and the footnote \<open>1:shows 4+ diamonds\<close>, which the
  suit-symbol escaping leaves unchanged. (Extraction on the text the claim expected
  gives \<open>1C Pass Pass 1D =1= Pass Pass Pass\<close>, and rule (a) does fire on \<open>4+ D\<close>.)
\<close>

theorem scenario_three:
  "expand_auction (py ''1C - [P] - 1D(shows 4+ diamonds) - all pass'')
     = py ''1C Pass 1D(shows 4+ diamonds) Pass Pass Pass''
   \<and> extract_bid_notes (py ''1C Pass 1D(shows 4+ diamonds) Pass Pass Pass'')
     = (py ''1C Pass 1D =1= Pass Pass Pass'', py ''1:shows 4+ diamonds'')
   \<and> extract_bid_notes (py ''1C Pass Pass 1D(shows 4+ diamonds) Pass Pass Pass'')
     = (py ''1C Pass Pass 1D =1= Pass Pass Pass'', py ''1:shows 4+ diamonds'')
   \<and> add_suit_symbols (py ''1:shows 4+ diamonds'') = py ''1:shows 4+ diamonds''
   \<and> add_suit_symbols (py ''shows 4+ diamonds'') = py ''shows 4+ diamonds''
   \<and> stage3_row (py ''3'', expand_auction (py ''1C - [P] - 1D(shows 4+ diamonds) - all pass''), [])
     = (py ''3'', py ''1C Pass 1D =1= Pass Pass Pass'', py ''1:shows 4+ diamonds'', [])
   \<and> add_suit_symbols (py ''shows 4+ D'') = py ''shows 4+'' @ [BSL] @ py ''Ds''"
  by code_simp

section \<open>Opponents' passes and doubles in the commentary\<close>

lemma commentary_loop_append:
  "commentary_loop notes (xs @ ys) lines = commentary_loop notes ys (commentary_loop notes xs lines)"
  by (induction xs arbitrary: lines) simp_all

lemma commentary_loop_acc:
  "commentary_loop notes xs lines = lines @ commentary_loop notes xs []"
proof (induction xs arbitrary: lines)
  case Nil
  then show ?case by simp
next
  case (Cons x xs)
  show ?case
    using Cons.IH [of "lines @ turn_lines notes x"] Cons.IH [of "turn_lines notes x"] by simp
qed

lemma commentary_loop_turn:
  "commentary_loop notes (before @ turn # after) []
     = commentary_loop notes before [] @ turn_lines notes turn @ commentary_loop notes after []"
proof -
  have "commentary_loop notes (before @ turn # after) []
        = commentary_loop notes after (commentary_loop notes before [] @ turn_lines notes turn)"
    by (simp add: commentary_loop_append)
  also have "\<dots> = (commentary_loop notes before [] @ turn_lines notes turn)
                   @ commentary_loop notes after []"
    by (rule commentary_loop_acc)
  finally show ?thesis by simp
qed

lemma upper_Pass: "upper (py ''Pass'') = Some (py ''PASS'')"
  by code_simp

lemma upper_X: "upper (py ''X'') \<noteq> Some (py ''PASS'')" "upper (py ''XX'') \<noteq> Some (py ''PASS'')"
  by code_simp+

text \<open>
  C8. In the commentary loop a turn of East or West whose bid is a pass (in any
  capitalisation, \<open>Pass\<close> in particular) appends no line, with or without a footnote,
  and a turn whose bid is \<open>X\<close> or \<open>XX\<close> appends exactly one line, the seat's name
  with \<open>doubles.\<close> or \<open>redoubles.\<close>, with or without a footnote. The lines of the
  whole loop are those of the turns before, those of the turn, and those of the turns
  after.
\<close>

theorem opponent_pass_silent:
  assumes "seat = py ''E'' \<or> seat = py ''W''"
  shows "(upper bid = Some (py ''PASS'') \<longrightarrow>
            turn_lines notes (seat, bid, note_num) = []
            \<and> commentary_loop notes (before @ (seat, bid, note_num) # after) []
                = commentary_loop notes before [] @ commentary_loop notes after [])
         \<and> turn_lines notes (seat, py ''Pass'', note_num) = []
         \<and> (bid = py ''X'' \<or> bid = py ''XX'' \<longrightarrow>
            length (turn_lines notes (seat, bid, note_num)) = 1
            \<and> turn_lines notes (seat, bid, note_num)
                = [(if seat = py ''E'' then py ''East'' else py ''West'')
                   @ (if bid = py ''X'' then py '' doubles.'' else py '' redoubles.'')]
            \<and> commentary_loop notes (before @ (seat, bid, note_num) # after) []
                = commentary_loop notes before [] @ turn_lines notes (seat, bid, note_num)
                  @ commentary_loop notes after [])"
proof -
  have ne: "seat \<noteq> py ''N''" "seat \<noteq> py ''S''"
    using assms by (auto simp: py_def)
  have pass: "turn_lines notes (seat, b, note_num) = []" if "upper b = Some (py ''PASS'')" for b
    using assms ne that by (auto simp: turn_lines_def Let_def)
  have dbl: "turn_lines notes (seat, bid, note_num)
                = [(if seat = py ''E'' then py ''East'' else py ''West'')
                   @ (if bid = py ''X'' then py '' doubles.'' else py '' redoubles.'')]"
    if "bid = py ''X'' \<or> bid = py ''XX''"
    using assms ne that upper_X by (auto simp: turn_lines_def Let_def)
  show ?thesis
    using pass [of bid] pass [OF upper_Pass] dbl
    by (simp add: commentary_loop_turn)
qed

theorem opponent_pass_silent_witness:
  "turn_lines [1 \<mapsto> py ''forced''] (py ''E'', py ''Pass'', Some 1) = []
   \<and> turn_lines Map.empty (py ''E'', py ''Pass'', None) = []
   \<and> turn_lines Map.empty (py ''E'', py ''X'', None) = [py ''East doubles.'']
   \<and> turn_lines [1 \<mapsto> py ''penalty''] (py ''W'', py ''XX'', Some 1) = [py ''West redoubles.'']
   \<and> commentary_loop Map.empty [(py ''N'', py ''1C'', None), (py ''E'', py ''X'', None)] []
       = [py ''North bids 1'' @ [BSL] @ py ''C.'', py ''East doubles.'']"
proof -
  have e: "py ''E'' = py ''E'' \<or> py ''E'' = py ''W''" by simp
  have w: "py ''W'' = py ''E'' \<or> py ''W'' = py ''W''" by simp
  have n: "commentary_loop Map.empty [(py ''N'', py ''1C'', None)] [] = [py ''North bids 1'' @ [BSL] @ py ''C.'']"
    by code_simp
  have we: "py ''W'' \<noteq> py ''E''" by (simp add: py_def)
  have xx: "py ''XX'' \<noteq> py ''X''" by (simp add: py_def)
  from opponent_pass_silent [OF e, of "py ''Pass''" "[1 \<mapsto> py ''forced'']" "Some 1" "[]" "[]"]
       opponent_pass_silent [OF e, of "py ''Pass''" Map.empty None "[]" "[]"]
       opponent_pass_silent [OF e, of "py ''X''" Map.empty None "[(py ''N'', py ''1C'', None)]" "[]"]
       opponent_pass_silent [OF w, of "py ''XX''" "[1 \<mapsto> py ''penalty'']" "Some 1" "[]" "[]"]
       n we xx
  show ?thesis by (simp add: py_def)
qed

section \<open>The round trip through the tagged document\<close>

text \<open>
  C7, as amended. Take stage 3 records in which no value has a line break, no line of the
  auction body starts with \<open>%\<close> or \<open>{\<close> or reads as a tag, and the footnotes have
  distinct numbers and non-empty texts without bar or line break (\<open>records_ok\<close>; the
  values of the reference boards have no line break either). Then the document that
  \<open>stage4\<close> writes for them is read by \<open>parse_boards\<close> without error, and the boards
  read are, in order, those of the records whose board is resolved, each with the
  dealer of the reference board, the auction lines as written and the footnotes of the
  record.
\<close>

theorem round_trip:
  assumes "records_ok refs recs"
  shows "read_back refs (map row_of recs)
         = Inr (map (expected_view refs) (filter (resolved refs) recs))"
proof -
  let ?ls = "header_lines @ concat (map (record_lines refs) recs)"
  have written: "stage4 refs (map row_of recs) = unlines ?ls"
    by (simp add: stage4_def header_unlines stage4_rows_lines unlines_append)
  have nb: "\<forall>l \<in> set ?ls. no_break l"
    using header_no_break record_lines_no_break [OF assms] by auto
  then have "CR \<notin> set (unlines ?ls)"
    by (auto simp: set_unlines no_break_def NL_def CR_def)
  then have un: "universal_newlines (unlines ?ls) = unlines ?ls"
    by (rule universal_newlines_id)
  have "\<forall>l \<in> set ?ls. NL \<notin> set l" using nb by (simp add: no_break_def)
  then have sp: "split_on NL [] (unlines ?ls) = ?ls @ [[]]" by (rule split_unlines)
  have start: "\<not> in_commentary parser_start" by (simp add: parser_start_def)
  from run_records [OF assms start] obtain st where
    st: "parse_lines parser_start (concat (map (record_lines refs) recs)) = Inr st"
        "\<not> in_commentary st"
        "map board_view (boards (flush st))
           = map board_view (boards (flush parser_start))
             @ map (expected_view refs) (filter (resolved refs) recs)" by blast
  have last: "parse_line st [] = Inr st" using st(2) by (rule step_blank)
  have "parse_lines parser_start (?ls @ [[]]) = Inr st"
    by (simp add: parse_lines_append run_header st(1) last)
  then have "parse_boards (stage4 refs (map row_of recs)) = Inr (boards (flush st))"
    by (simp add: parse_boards_def written un sp)
  moreover have "boards (flush parser_start) = []"
    by (simp add: flush_def parser_start_def)
  ultimately show ?thesis by (simp add: read_back_def st(3))
qed

theorem round_trip_witness:
  "records_ok [(py ''1'', [(py ''Board'', py ''1''), (py ''Dealer'', py ''S'')])]
     [(py ''1-2'', py ''1C =1= Pass 1D =2= 2S 3C Pass =3= Pass Pass'',
       [(1, py ''16+ HCP''), (2, py ''waiting''), (3, py ''forced'')], py ''a note''),
      (py ''2'', py ''1C Pass Pass Pass'', [], []),
      (py ''1'', py ''1C Pass Pass Pass'', [], [])]
   \<and> read_back [(py ''1'', [(py ''Board'', py ''1''), (py ''Dealer'', py ''S'')])]
       [(py ''1-2'', py ''1C =1= Pass 1D =2= 2S 3C Pass =3= Pass Pass'',
           py ''1:16+ HCP|2:waiting|3:forced'', py ''a note''),
        (py ''2'', py ''1C Pass Pass Pass'', [], []),
        (py ''1'', py ''1C Pass Pass Pass'', [], [])]
     = Inr [(py ''S'', [py ''1C =1= Pass 1D =2= 2S'', py ''3C Pass =3= Pass Pass''],
              {(1, py ''16+ HCP''), (2, py ''waiting''), (3, py ''forced'')}),
            (py ''S'', [py ''1C Pass Pass Pass''], {})]"
proof -
  let ?refs = "[(py ''1'', [(py ''Board'', py ''1''), (py ''Dealer'', py ''S'')])]"
  let ?recs = "[(py ''1-2'', py ''1C =1= Pass 1D =2= 2S 3C Pass =3= Pass Pass'',
       [(1, py ''16+ HCP''), (2, py ''waiting''), (3, py ''forced'')], py ''a note''),
      (py ''2'', py ''1C Pass Pass Pass'', [], []),
      (py ''1'', py ''1C Pass Pass Pass'', [], [])]"
  have ok: "records_ok ?refs ?recs" by code_simp
  have rows: "map row_of ?recs
      = [(py ''1-2'', py ''1C =1= Pass 1D =2= 2S 3C Pass =3= Pass Pass'',
           py ''1:16+ HCP|2:waiting|3:forced'', py ''a note''),
        (py ''2'', py ''1C Pass Pass Pass'', [], []),
        (py ''1'', py ''1C Pass Pass Pass'', [], [])]"
    by code_simp
  have ex: "map (expected_view ?refs) (filter (resolved ?refs) ?recs)
      = [(py ''S'', [py ''1C =1= Pass 1D =2= 2S'', py ''3C Pass =3= Pass Pass''],
              {(1, py ''16+ HCP''), (2, py ''waiting''), (3, py ''forced'')}),
            (py ''S'', [py ''1C Pass Pass Pass''], {})]"
    by code_simp
  from round_trip [OF ok] ok show ?thesis unfolding rows ex by simp
qed

text \<open>
  C7 as stated fails: the raw auction \<open>1C()\<close> gives a stage 3 record with the footnote
  \<open>1:\<close>, number 1 with an empty text; \<open>stage4\<close> writes it as a Note, and
  \<open>parse_boards\<close>, whose pattern asks for at least one character after the colon,
  reads back no footnote at all.
\<close>

theorem empty_footnote_counterexample:
  "stage3_row (py ''1'', expand_auction (py ''1C()''), [])
     = (py ''1'', py ''1C =1= Pass Pass Pass'', py ''1:'', [])
   \<and> row_of (py ''1'', py ''1C =1= Pass Pass Pass'', [(1, [])], [])
     = (py ''1'', py ''1C =1= Pass Pass Pass'', py ''1:'', [])
   \<and> read_back [(py ''1'', [(py ''Board'', py ''1''), (py ''Dealer'', py ''S'')])]
       [(py ''1'', py ''1C =1= Pass Pass Pass'', py ''1:'', [])]
     = Inr [(py ''S'', [py ''1C =1= Pass Pass Pass''], {})]
   \<and> expected_view [(py ''1'', [(py ''Board'', py ''1''), (py ''Dealer'', py ''S'')])]
       (py ''1'', py ''1C =1= Pass Pass Pass'', [(1, [])], [])
     = (py ''S'', [py ''1C =1= Pass Pass Pass''], {(1, [])})"
  by code_simp

section \<open>Escaping twice\<close>

text \<open>
  C4. The claim holds of rules (a), (b), (c) and (e) and \<open>add_suit_symbols\<close> misses it in
  rule (d): the backslash before an escaped suit letter is not a word character, so the
  letter still starts a word and rule (d) escapes it again before \<open>keycard\<close>. One run
  escapes twice the suit letter of \<open>4H keycard\<close>, which rule (c) has escaped when rule (d)
  reads it, and a run on the escaped text of \<open>H keycard\<close> escapes its suit letter a
  second time, where the comments of the function give every suit letter one backslash.
  The last line is a text in which rule (d) has no part: there the second run changes
  nothing.
\<close>

theorem keycard_double_escape:
  "add_suit_symbols (py ''4H keycard'') = py ''4'' @ [BSL, BSL] @ py ''H keycard''
   \<and> add_suit_symbols (py ''4H keycard'') \<noteq> py ''4'' @ [BSL] @ py ''H keycard''
   \<and> add_suit_symbols (py ''H keycard'') = [BSL] @ py ''H keycard''
   \<and> add_suit_symbols ([BSL] @ py ''H keycard'') = [BSL, BSL] @ py ''H keycard''
   \<and> add_suit_symbols (add_suit_symbols (py ''H keycard'')) \<noteq> add_suit_symbols (py ''H keycard'')
   \<and> add_suit_symbols (add_suit_symbols (py ''1S for D'')) = add_suit_symbols (py ''1S for D'')"
  by code_simp

text \<open>
  The defect is in rule (d) alone. On a text that \<open>add_suit_symbols\<close> has escaped,
  rules (a), (b), (c) and (e) match nowhere, so a second run differs from the escaped text
  only in what rule (d) adds, and leaves it unchanged exactly when rule (d) matches
  nowhere in it.
\<close>

lemma second_run_is_rule_d:
  "add_suit_symbols (add_suit_symbols t) = re_sub suit_keycard None (add_suit_symbols t)
   \<and> (add_suit_symbols (add_suit_symbols t) = add_suit_symbols t
        \<longleftrightarrow> keycard_free None (add_suit_symbols t))"
  by (simp only: second_pass keycard_same_iff)

end
